theory Spec2Isabelle
  imports Main "HOL-Library.Word" "HOL-Library.Sublist"
begin

unbundle bit_operations_syntax

section \<open>Bytes, errors, readers and writers\<close>

text \<open>
  GoVaultFS moves byte slices between \<^verbatim>\<open>io.Reader\<close>s and \<^verbatim>\<open>io.Writer\<close>s.
  A byte is an 8-bit word. Every Go \<^verbatim>\<open>error\<close> value the modelled code can see is a
  constructor of \<open>error\<close>; \<^verbatim>\<open>nil\<close> is \<open>None\<close> of \<open>error option\<close>.
\<close>

type_synonym byte = "8 word"

datatype error =
    EOF
  | ErrUnexpectedEOF
  | ENOENT
  | ENOTDIR
  | EISDIR
  | EINVAL
  | EEXIST
  | ENOTEMPTY
  | EBUSY
  | ENAMETOOLONG
  | KeySizeError nat
  | ErrShortWrite
  | PeerNotFound string
  | FileNotOnDisk string
  | GobError

text \<open>
  \<^verbatim>\<open>errors.Is(err, os.ErrNotExist)\<close>: on a POSIX system the only errno that is
  \<^verbatim>\<open>os.ErrNotExist\<close> is \<open>ENOENT\<close>; a \<^verbatim>\<open>nil\<close> error is no error at all.
\<close>

fun errors_Is_ErrNotExist :: "error option \<Rightarrow> bool" where
  "errors_Is_ErrNotExist None = False"
| "errors_Is_ErrNotExist (Some e) = (e = ENOENT)"

text \<open>
  A reader is the sequence of byte chunks it will still deliver, in order, and what
  happens once they are used up: \<open>Some e\<close> when every later \<^verbatim>\<open>Read\<close> returns the
  error \<open>e\<close> (\<open>EOF\<close> for a buffer or a file), \<open>None\<close> when the call never returns
  (an open, silent network connection). One \<^verbatim>\<open>Read(p)\<close> returns bytes of one chunk
  only, at most \<open>len(p)\<close> of them, so a \<^verbatim>\<open>bytes.Buffer\<close> is a reader of one chunk
  and a TCP connection is a reader of as many chunks as segments arrive.
  The result of \<open>Read\<close> is \<open>None\<close> when the call blocks forever.
\<close>

datatype reader = Reader (chunks: "byte list list") (ending: "error option")

function Read :: "nat \<Rightarrow> reader \<Rightarrow> (byte list \<times> error option \<times> reader) option" where
  "Read n (Reader [] None) = None"
| "Read n (Reader [] (Some e)) = Some ([], Some e, Reader [] (Some e))"
| "Read n (Reader (c # cs) en) =
     (if c = [] then Read n (Reader cs en)
      else Some (take n c, None, Reader (drop n c # cs) en))"
  by pat_completeness auto
termination
  by (relation "measure (\<lambda>(n, r). length (chunks r))") auto

definition pending :: "reader \<Rightarrow> byte list" where
  "pending r = concat (chunks r)"

definition bytes_Reader :: "byte list \<Rightarrow> reader" where
  "bytes_Reader bs = Reader [bs] (Some EOF)"

text \<open>
  A writer is what has been written to it so far and, optionally, how many more bytes
  it accepts before \<^verbatim>\<open>Write\<close> fails with the given error (a full disk, a closed
  connection). \<open>Write\<close> returns the count written, the error and the writer afterwards.
\<close>

datatype writer = Writer (written: "byte list") (room: "(nat \<times> error) option")

fun Write :: "byte list \<Rightarrow> writer \<Rightarrow> nat \<times> error option \<times> writer" where
  "Write p (Writer w None) = (length p, None, Writer (w @ p) None)"
| "Write p (Writer w (Some (k, e))) =
     (if length p \<le> k then (length p, None, Writer (w @ p) (Some (k - length p, e)))
      else (k, Some e, Writer (w @ take k p) (Some (0, e))))"

text \<open>The contents of a Go buffer \<open>buf\<close> after a \<^verbatim>\<open>Read(buf)\<close> that returned \<open>got\<close>.\<close>

definition fill :: "byte list \<Rightarrow> byte list \<Rightarrow> byte list" where
  "fill buf got = got @ drop (length got) buf"

section \<open>p2p: messages and the default decoder\<close>

definition IncomingMessage :: byte where
  "IncomingMessage = 0x1"

definition IncomingStream :: byte where
  "IncomingStream = 0x2"

record RPC =
  From :: string
  Payload :: "byte list"
  Stream :: bool

definition RPC_zero :: RPC where
  "RPC_zero = \<lparr>From = [], Payload = [], Stream = False\<rparr>"

text \<open>
  \<^verbatim>\<open>DefaultDecoder.Decode(r, msg)\<close>: the returned triple is the error (\<open>None\<close> is
  \<^verbatim>\<open>nil\<close>), the RPC behind \<^verbatim>\<open>msg\<close> afterwards and the reader afterwards.
\<close>

definition DefaultDecoder_Decode :: "reader \<Rightarrow> RPC \<Rightarrow> (error option \<times> RPC \<times> reader) option" where
  "DefaultDecoder_Decode r msg =
     (case Read 1 r of
        None \<Rightarrow> None
      | Some (got, err, r1) \<Rightarrow>
          (case err of
             Some e \<Rightarrow> Some (None, msg, r1)
           | None \<Rightarrow>
               let peekBuf = fill (replicate 1 0) got;
                   stream = (peekBuf ! 0 = IncomingStream)
               in if stream then Some (None, msg\<lparr>Stream := True\<rparr>, r1)
                  else (case Read 1028 r1 of
                          None \<Rightarrow> None
                        | Some (buf, err2, r2) \<Rightarrow>
                            (case err2 of
                               Some e \<Rightarrow> Some (Some e, msg, r2)
                             | None \<Rightarrow> Some (None, msg\<lparr>Payload := buf\<rparr>, r2)))))"

section \<open>p2p: the per-connection read loop\<close>

text \<open>
  \<^verbatim>\<open>TCPTransport.handleConn\<close> runs in a goroutine of its own, next to the goroutine
  that consumes \<^verbatim>\<open>t.rpcch\<close> and to whoever reads a stream off the connection and
  calls \<^verbatim>\<open>peer.CloseStream()\<close>. The model is an interleaving of atomic steps on the
  state the goroutines share. \<open>phase\<close> is the program point of the read loop:
  \<open>Decoding\<close> before \<^verbatim>\<open>t.Decoder.Decode\<close>, \<open>Sending rpc\<close> before \<^verbatim>\<open>t.rpcch <- rpc\<close>,
  \<open>Waiting\<close> inside \<^verbatim>\<open>peer.wg.Wait()\<close>, \<open>Dropped\<close> after the deferred
  \<^verbatim>\<open>conn.Close()\<close>. \<open>Panicked\<close> is the process after a \<^verbatim>\<open>sync.WaitGroup\<close> counter
  went negative. \<open>delivered\<close> is the history of every RPC sent on the channel.
\<close>

datatype phase = Decoding | Sending RPC | Waiting | Dropped "error option" | Panicked

record conn_state =
  phase :: phase
  conn :: reader
  wg :: int
  rpcch :: "RPC list"
  delivered :: "RPC list"

text \<open>The channel is made with \<^verbatim>\<open>make(chan RPC, 1024)\<close>.\<close>

definition rpcch_capacity :: nat where
  "rpcch_capacity = 1024"

text \<open>
  The part of \<^verbatim>\<open>handleConn\<close> before the loop: \<open>handshake\<close> is what
  \<^verbatim>\<open>t.HandshakeFunc(peer)\<close> returns, \<open>onPeer\<close> is \<open>None\<close> when \<^verbatim>\<open>t.OnPeer\<close> is
  \<^verbatim>\<open>nil\<close> and otherwise what the callback returns. \<^verbatim>\<open>NewTCPPeer\<close> gives the peer a
  fresh \<^verbatim>\<open>WaitGroup\<close>; \<open>q\<close> is the transport's channel as it stands.
\<close>

definition handleConn_start :: "error option \<Rightarrow> error option option \<Rightarrow> reader \<Rightarrow> RPC list \<Rightarrow> conn_state" where
  "handleConn_start handshake onPeer c q =
     (let peer = \<lparr>phase = Decoding, conn = c, wg = 0, rpcch = q, delivered = []\<rparr>
      in case handshake of
           Some e \<Rightarrow> peer\<lparr>phase := Dropped (Some e)\<rparr>
         | None \<Rightarrow>
             (case onPeer of
                Some (Some e) \<Rightarrow> peer\<lparr>phase := Dropped (Some e)\<rparr>
              | _ \<Rightarrow> peer))"

text \<open>
  One step of the read loop; \<open>None\<close> when the goroutine cannot move (it is blocked in
  a read, on the full channel or in \<^verbatim>\<open>Wait\<close>, or it has returned). \<open>addr\<close> is
  \<^verbatim>\<open>conn.RemoteAddr().String()\<close>.
\<close>

definition handleConn_step :: "string \<Rightarrow> conn_state \<Rightarrow> conn_state option" where
  "handleConn_step addr s =
     (case phase s of
        Decoding \<Rightarrow>
          (case DefaultDecoder_Decode (conn s) RPC_zero of
             None \<Rightarrow> None
           | Some (err, rpc0, c') \<Rightarrow>
               (case err of
                  Some e \<Rightarrow> Some (s\<lparr>phase := Dropped (Some e), conn := c'\<rparr>)
                | None \<Rightarrow>
                    let rpc = rpc0\<lparr>From := addr\<rparr>
                    in if Stream rpc
                       then Some (s\<lparr>phase := Waiting, conn := c', wg := wg s + 1\<rparr>)
                       else Some (s\<lparr>phase := Sending rpc, conn := c'\<rparr>)))
      | Sending rpc \<Rightarrow>
          (if length (rpcch s) < rpcch_capacity
           then Some (s\<lparr>phase := Decoding, rpcch := rpcch s @ [rpc],
                        delivered := delivered s @ [rpc]\<rparr>)
           else None)
      | Waiting \<Rightarrow> (if wg s = 0 then Some (s\<lparr>phase := Decoding\<rparr>) else None)
      | Dropped e \<Rightarrow> None
      | Panicked \<Rightarrow> None)"

text \<open>
  What the other goroutines can do to the shared state: \<^verbatim>\<open>peer.CloseStream()\<close>, that
  is \<^verbatim>\<open>wg.Done()\<close>, which panics when the counter would go negative; a receive from
  \<^verbatim>\<open>Consume()\<close>; a \<^verbatim>\<open>Read\<close> of up to \<open>n\<close> bytes straight off the connection.
\<close>

datatype event = CloseStream | Consume | StreamRead nat

fun env_step :: "event \<Rightarrow> conn_state \<Rightarrow> conn_state option" where
  "env_step CloseStream s =
     (if phase s = Panicked then None
      else if wg s - 1 < 0 then Some (s\<lparr>phase := Panicked\<rparr>)
      else Some (s\<lparr>wg := wg s - 1\<rparr>))"
| "env_step Consume s =
     (if phase s = Panicked then None
      else case rpcch s of [] \<Rightarrow> None | rpc # q \<Rightarrow> Some (s\<lparr>rpcch := q\<rparr>))"
| "env_step (StreamRead n) s =
     (if phase s = Panicked then None
      else case Read n (conn s) of None \<Rightarrow> None | Some (got, err, c') \<Rightarrow> Some (s\<lparr>conn := c'\<rparr>))"

text \<open>Every state the connection can get to from \<open>s\<close>, whatever the scheduling.\<close>

inductive reaches :: "string \<Rightarrow> conn_state \<Rightarrow> conn_state \<Rightarrow> bool" for addr :: string and s :: conn_state where
  here: "reaches addr s s"
| loop: "reaches addr s t \<Longrightarrow> handleConn_step addr t = Some u \<Longrightarrow> reaches addr s u"
| env: "reaches addr s t \<Longrightarrow> env_step ev t = Some u \<Longrightarrow> reaches addr s u"

text \<open>
  Two invariants of the read loop. No RPC with \<open>Stream\<close> set is on the channel, was ever
  sent on it or is about to be. The \<^verbatim>\<open>WaitGroup\<close> counter is 0 while the loop decodes
  or sends, and 0 or 1 while it waits.
\<close>

definition no_stream_queued :: "conn_state \<Rightarrow> bool" where
  "no_stream_queued s \<longleftrightarrow>
     list_all (\<lambda>rpc. \<not> Stream rpc) (delivered s)
   \<and> list_all (\<lambda>rpc. \<not> Stream rpc) (rpcch s)
   \<and> (case phase s of Sending rpc \<Rightarrow> \<not> Stream rpc | _ \<Rightarrow> True)"

definition gate_inv :: "conn_state \<Rightarrow> bool" where
  "gate_inv s \<longleftrightarrow>
     (case phase s of
        Decoding \<Rightarrow> wg s = 0
      | Sending rpc \<Rightarrow> wg s = 0
      | Waiting \<Rightarrow> wg s = 0 \<or> wg s = 1
      | Dropped e \<Rightarrow> 0 \<le> wg s
      | Panicked \<Rightarrow> True)"

section \<open>Library functions the store uses\<close>

text \<open>
  \<^verbatim>\<open>crypto/sha1.Sum\<close> (SHA-1 of FIPS 180-4), \<^verbatim>\<open>encoding/hex.EncodeToString\<close>,
  \<^verbatim>\<open>strings.Join\<close> and \<^verbatim>\<open>strings.Split\<close> of the Go standard library, which
  \<^verbatim>\<open>store.go\<close> imports. A Go string is a sequence of bytes, as an Isabelle \<open>string\<close> is.
\<close>

type_synonym u32 = "32 word"

definition rotl :: "nat \<Rightarrow> u32 \<Rightarrow> u32" where
  "rotl n x = push_bit n x OR drop_bit (32 - n) x"

definition be32 :: "byte list \<Rightarrow> u32" where
  "be32 bs = foldl (\<lambda>acc b. push_bit 8 acc OR ucast b) 0 bs"

definition u32_bytes :: "u32 \<Rightarrow> byte list" where
  "u32_bytes w = [ucast (drop_bit 24 w), ucast (drop_bit 16 w), ucast (drop_bit 8 w), ucast w]"

definition u64_bytes :: "64 word \<Rightarrow> byte list" where
  "u64_bytes w = map (\<lambda>i. ucast (drop_bit (8 * (7 - i)) w)) [0..<8]"

definition sha1_pad :: "byte list \<Rightarrow> byte list" where
  "sha1_pad m = m @ [0x80] @ replicate ((119 - length m mod 64) mod 64) 0 @ u64_bytes (of_nat (8 * length m))"

fun blocks :: "nat \<Rightarrow> nat \<Rightarrow> 'a list \<Rightarrow> 'a list list" where
  "blocks 0 k xs = []"
| "blocks (Suc n) k xs = take k xs # blocks n k (drop k xs)"

fun schedule :: "nat \<Rightarrow> u32 list \<Rightarrow> u32 list" where
  "schedule 0 w = w"
| "schedule (Suc n) w =
     schedule n (w @ [rotl 1 (w ! (length w - 3) XOR w ! (length w - 8) XOR w ! (length w - 14) XOR w ! (length w - 16))])"

type_synonym sha1_state = "u32 \<times> u32 \<times> u32 \<times> u32 \<times> u32"

definition sha1_round :: "nat \<Rightarrow> u32 \<Rightarrow> sha1_state \<Rightarrow> sha1_state" where
  "sha1_round i w s = (case s of (a, b, c, d, e) \<Rightarrow>
     let f = (if i < 20 then (b AND c) OR (NOT b AND d)
              else if i < 40 then b XOR c XOR d
              else if i < 60 then (b AND c) OR (b AND d) OR (c AND d)
              else b XOR c XOR d);
         k = (if i < 20 then 0x5A827999 else if i < 40 then 0x6ED9EBA1
              else if i < 60 then 0x8F1BBCDC else 0xCA62C1D6)
     in (rotl 5 a + f + e + k + w, a, rotl 30 b, c, d))"

fun sha1_rounds :: "nat \<Rightarrow> u32 list \<Rightarrow> sha1_state \<Rightarrow> sha1_state" where
  "sha1_rounds i [] s = s"
| "sha1_rounds i (w # ws) s = sha1_rounds (Suc i) ws (sha1_round i w s)"

definition sha1_block :: "sha1_state \<Rightarrow> byte list \<Rightarrow> sha1_state" where
  "sha1_block h blk = (case h of (h0, h1, h2, h3, h4) \<Rightarrow>
     case sha1_rounds 0 (schedule 64 (map be32 (blocks 16 4 blk))) h of (a, b, c, d, e) \<Rightarrow>
       (h0 + a, h1 + b, h2 + c, h3 + d, h4 + e))"

definition sha1_Sum :: "byte list \<Rightarrow> byte list" where
  "sha1_Sum m = (case foldl sha1_block (0x67452301, 0xEFCDAB89, 0x98BADCFE, 0x10325476, 0xC3D2E1F0)
                        (blocks (length (sha1_pad m) div 64) 64 (sha1_pad m)) of
     (h0, h1, h2, h3, h4) \<Rightarrow> u32_bytes h0 @ u32_bytes h1 @ u32_bytes h2 @ u32_bytes h3 @ u32_bytes h4)"

definition str_bytes :: "string \<Rightarrow> byte list" where
  "str_bytes s = map (\<lambda>c. of_nat (of_char c)) s"

definition hextable :: string where
  "hextable = ''0123456789abcdef''"

definition hex_EncodeToString :: "byte list \<Rightarrow> string" where
  "hex_EncodeToString src =
     concat (map (\<lambda>v. [hextable ! unat (drop_bit 4 v), hextable ! unat (v AND 0x0f)]) src)"

fun strings_Join :: "string list \<Rightarrow> string \<Rightarrow> string" where
  "strings_Join [] sep = []"
| "strings_Join [x] sep = x"
| "strings_Join (x # y # ys) sep = x @ sep @ strings_Join (y # ys) sep"

text \<open>
  \<^verbatim>\<open>strings.Split(s, sep)\<close> for a separator of one character; \<^verbatim>\<open>Split("", "/")\<close> is
  \<^verbatim>\<open>[""]\<close>. The result is never empty, so the first branch of the \<open>case\<close> is never taken.
\<close>

fun strings_Split :: "string \<Rightarrow> char \<Rightarrow> string list" where
  "strings_Split [] sep = [[]]"
| "strings_Split (c # cs) sep =
     (if c = sep then [] # strings_Split cs sep
      else (case strings_Split cs sep of
              [] \<Rightarrow> [[c]]
            | x # xs \<Rightarrow> (c # x) # xs))"

section \<open>store.go: the path transform\<close>

record PathKey =
  PathName :: string
  Filename :: string

text \<open>\<^verbatim>\<open>hashStr[from:to]\<close> is \<open>take (to - from) (drop from hashStr)\<close>: the loop keeps \<open>to\<close> within the string.\<close>

definition CASPathTransformFunc :: "string \<Rightarrow> PathKey" where
  "CASPathTransformFunc key =
     (let hash = sha1_Sum (str_bytes key);
          hashStr = hex_EncodeToString hash;
          blocksize = 5;
          sliceLen = length hashStr div blocksize;
          paths = map (\<lambda>i. let from = i * blocksize; to = (i * blocksize) + blocksize
                              in take (to - from) (drop from hashStr)) [0..<sliceLen]
      in \<lparr>PathName = strings_Join paths ''/'', Filename = hashStr\<rparr>)"

definition DefaultPathTransformFunc :: "string \<Rightarrow> PathKey" where
  "DefaultPathTransformFunc key = \<lparr>PathName = key, Filename = key\<rparr>"

definition FirstPathName :: "PathKey \<Rightarrow> string" where
  "FirstPathName p =
     (let paths = strings_Split (PathName p) CHR ''/''
      in if length paths = 0 then [] else paths ! 0)"

definition FullPath :: "PathKey \<Rightarrow> string" where
  "FullPath p = PathName p @ ''/'' @ Filename p"

section \<open>The file system under the store\<close>

text \<open>
  \<^verbatim>\<open>store.go\<close> reaches the disk through \<^verbatim>\<open>os.Stat\<close>, \<^verbatim>\<open>os.MkdirAll\<close>, \<^verbatim>\<open>os.Create\<close>,
  \<^verbatim>\<open>os.Open\<close> and \<^verbatim>\<open>os.RemoveAll\<close>. The model is a Linux directory tree without links
  and permissions: a file system maps a location, the list of names from the top
  directory down, to the node there. The top directory \<open>[]\<close> always exists; it stands
  for the working directory and for \<open>/\<close> alike. Nothing can be reached below a location
  that holds a regular file or nothing.
\<close>

type_synonym loc = "string list"

datatype node = File "byte list" | Dir

type_synonym fs = "loc \<Rightarrow> node option"

definition node_at :: "fs \<Rightarrow> loc \<Rightarrow> node option" where
  "node_at fs l = (if l = [] then Some Dir else fs l)"

subsection \<open>Path names\<close>

text \<open>
  Go refuses a name with a NUL byte before it calls the kernel (\<open>EINVAL\<close>); the kernel
  refuses the empty name (\<open>ENOENT\<close>) and a name of \<open>PATH_MAX\<close> bytes or more, the
  closing NUL counted (\<open>ENAMETOOLONG\<close>). One component holds at most \<open>NAME_MAX\<close> bytes.
\<close>

definition NAME_MAX :: nat where
  "NAME_MAX = 255"

definition PATH_MAX :: nat where
  "PATH_MAX = 4096"

definition path_check :: "string \<Rightarrow> error option" where
  "path_check name =
     (if CHR 0x00 \<in> set name then Some EINVAL
      else if name = [] then Some ENOENT
      else if PATH_MAX \<le> length name then Some ENAMETOOLONG
      else None)"

text \<open>
  A path is walked one component at a time, a component being what stands between two
  separators: an empty component and \<open>.\<close> stay, \<open>..\<close> goes up, a name goes down. Every
  component is looked up in a directory that exists, and a name that is too long is
  refused by the directory it is looked up in. \<open>resolve\<close> is the walk; the node at the
  place it ends in is looked at by who called.
\<close>

definition step_loc :: "loc \<Rightarrow> string \<Rightarrow> loc" where
  "step_loc cur c =
     (if c = [] \<or> c = ''.'' then cur else if c = ''..'' then butlast cur else cur @ [c])"

fun resolve :: "fs \<Rightarrow> loc \<Rightarrow> string list \<Rightarrow> error + loc" where
  "resolve fs cur [] = Inr cur"
| "resolve fs cur (c # cs) =
     (case node_at fs cur of
        None \<Rightarrow> Inl ENOENT
      | Some (File d) \<Rightarrow> Inl ENOTDIR
      | Some Dir \<Rightarrow>
          if NAME_MAX < length c then Inl ENAMETOOLONG
          else resolve fs (step_loc cur c) cs)"

text \<open>The lookup of a whole name: where it leads and what is there.\<close>

definition namei :: "fs \<Rightarrow> string \<Rightarrow> error + (loc \<times> node)" where
  "namei fs name =
     (case path_check name of
        Some e \<Rightarrow> Inl e
      | None \<Rightarrow>
          (case resolve fs [] (strings_Split name CHR ''/'') of
             Inl e \<Rightarrow> Inl e
           | Inr l \<Rightarrow> (case node_at fs l of None \<Rightarrow> Inl ENOENT | Some n \<Rightarrow> Inr (l, n))))"

text \<open>
  A call that makes or removes the last name of a path walks to the directory of that
  name first. Separators at the end of the path do not count for that:
  \<open>trim\<close> takes the empty components off the end, and the last of what is left is
  the name. Nothing is left of a path made of separators only, which is \<open>/\<close>.
\<close>

definition trim :: "string list \<Rightarrow> string list" where
  "trim comps = rev (dropWhile (\<lambda>c. c = []) (rev comps))"

subsection \<open>Stat, Open, Mkdir, MkdirAll and Create\<close>

definition os_Stat :: "fs \<Rightarrow> string \<Rightarrow> error + node" where
  "os_Stat fs name = (case namei fs name of Inl e \<Rightarrow> Inl e | Inr (l, n) \<Rightarrow> Inr n)"

text \<open>Without links \<^verbatim>\<open>os.Lstat\<close> is \<^verbatim>\<open>os.Stat\<close>.\<close>

definition os_Lstat :: "fs \<Rightarrow> string \<Rightarrow> error + node" where
  "os_Lstat fs name = os_Stat fs name"

text \<open>\<^verbatim>\<open>FileInfo.Size()\<close>; for a directory the value is the system's, 4096 on Linux.\<close>

fun fi_Size :: "node \<Rightarrow> nat" where
  "fi_Size (File d) = length d"
| "fi_Size Dir = 4096"

text \<open>
  \<^verbatim>\<open>os.Open(name)\<close> opens for reading: the open file is the place and the node there.
  Opening a directory succeeds; reading from it fails with \<open>EISDIR\<close>.
\<close>

definition os_Open :: "fs \<Rightarrow> string \<Rightarrow> error + (loc \<times> node)" where
  "os_Open fs name = namei fs name"

fun file_Reader :: "node \<Rightarrow> reader" where
  "file_Reader (File d) = Reader [d] (Some EOF)"
| "file_Reader Dir = Reader [] (Some EISDIR)"

text \<open>
  \<^verbatim>\<open>os.Mkdir(name, perm)\<close>: the directory of the last name must be there, and the name
  must be new; \<open>.\<close>, \<open>..\<close> and \<open>/\<close> exist already.
\<close>

definition os_Mkdir :: "fs \<Rightarrow> string \<Rightarrow> error option \<times> fs" where
  "os_Mkdir fs name =
     (case path_check name of
        Some e \<Rightarrow> (Some e, fs)
      | None \<Rightarrow>
          let cs = trim (strings_Split name CHR ''/'')
          in if cs = [] then (Some EEXIST, fs)
             else case resolve fs [] (butlast cs) of
                    Inl e \<Rightarrow> (Some e, fs)
                  | Inr d \<Rightarrow>
                      (case node_at fs d of
                         None \<Rightarrow> (Some ENOENT, fs)
                       | Some (File x) \<Rightarrow> (Some ENOTDIR, fs)
                       | Some Dir \<Rightarrow>
                           let c = last cs
                           in if c = ''.'' \<or> c = ''..'' then (Some EEXIST, fs)
                              else if NAME_MAX < length c then (Some ENAMETOOLONG, fs)
                              else (case node_at fs (d @ [c]) of
                                      Some n \<Rightarrow> (Some EEXIST, fs)
                                    | None \<Rightarrow> (None, fs(d @ [c] \<mapsto> Dir)))))"

text \<open>
  \<^verbatim>\<open>os.MkdirAll(path, perm)\<close> as the library has it. When the path is there already
  it is done, with \<open>ENOTDIR\<close> for what is no directory. Otherwise it takes the last
  name and the separators around it off the path, calls itself on what is left unless
  that is empty, and makes the directory; when that fails and the path is a directory
  all the same (as for \<open>a/.\<close>), there is no error.
\<close>

definition MkdirAll_parent :: "string \<Rightarrow> string" where
  "MkdirAll_parent path =
     butlast (rev (dropWhile (\<lambda>c. c \<noteq> CHR ''/'') (dropWhile (\<lambda>c. c = CHR ''/'') (rev path))))"

function os_MkdirAll :: "fs \<Rightarrow> string \<Rightarrow> error option \<times> fs" where
  "os_MkdirAll fs path =
     (case os_Stat fs path of
        Inr Dir \<Rightarrow> (None, fs)
      | Inr (File d) \<Rightarrow> (Some ENOTDIR, fs)
      | Inl e0 \<Rightarrow>
          (case (if MkdirAll_parent path \<noteq> [] then os_MkdirAll fs (MkdirAll_parent path)
                 else (None, fs)) of
             (Some e, fs1) \<Rightarrow> (Some e, fs1)
           | (None, fs1) \<Rightarrow>
               (case os_Mkdir fs1 path of
                  (None, fs2) \<Rightarrow> (None, fs2)
                | (Some e, fs2) \<Rightarrow>
                    (case os_Lstat fs1 path of
                       Inr Dir \<Rightarrow> (None, fs1)
                     | _ \<Rightarrow> (Some e, fs1)))))"
  by pat_completeness auto
termination
proof (relation "measure (\<lambda>(fs, path). length path)")
  show "wf (measure (\<lambda>(fs, path). length path))"
    by simp
next
  fix fs :: fs and path :: string and e0 :: error
  let ?d = "dropWhile (\<lambda>c. c \<noteq> CHR ''/'') (dropWhile (\<lambda>c. c = CHR ''/'') (rev path))"
  assume parent: "MkdirAll_parent path \<noteq> []"
  have "?d \<noteq> []"
  proof
    assume empty: "?d = []"
    have "MkdirAll_parent path = []"
      unfolding MkdirAll_parent_def by (simp only: empty rev.simps butlast.simps)
    with parent show False
      by simp
  qed
  then have "length (butlast (rev ?d)) < length ?d"
    by simp
  moreover have "length ?d \<le> length path"
    using length_dropWhile_le [of "\<lambda>c. c \<noteq> CHR ''/''" "dropWhile (\<lambda>c. c = CHR ''/'') (rev path)"]
      length_dropWhile_le [of "\<lambda>c. c = CHR ''/''" "rev path"]
    by simp
  ultimately have "length (MkdirAll_parent path) < length path"
    unfolding MkdirAll_parent_def by (rule less_le_trans)
  then show "((fs, MkdirAll_parent path), (fs, path)) \<in> measure (\<lambda>(fs, path). length path)"
    by simp
qed

declare os_MkdirAll.simps [simp del]

text \<open>
  \<^verbatim>\<open>os.Create(name)\<close> opens with \<^verbatim>\<open>O_RDWR|O_CREATE|O_TRUNC\<close>: the directory of the
  last name must exist, the path must not end in a separator, the name must be no
  directory, and the file is empty afterwards. The open file is the place of the file.
\<close>

definition os_Create :: "fs \<Rightarrow> string \<Rightarrow> (error + loc) \<times> fs" where
  "os_Create fs name =
     (case path_check name of
        Some e \<Rightarrow> (Inl e, fs)
      | None \<Rightarrow>
          let comps = strings_Split name CHR ''/''; cs = trim comps
          in if cs = [] then (Inl EISDIR, fs)
             else case resolve fs [] (butlast cs) of
                    Inl e \<Rightarrow> (Inl e, fs)
                  | Inr d \<Rightarrow>
                      (case node_at fs d of
                         None \<Rightarrow> (Inl ENOENT, fs)
                       | Some (File x) \<Rightarrow> (Inl ENOTDIR, fs)
                       | Some Dir \<Rightarrow>
                           let c = last cs
                           in if c = ''.'' \<or> c = ''..'' \<or> cs \<noteq> comps then (Inl EISDIR, fs)
                              else if NAME_MAX < length c then (Inl ENAMETOOLONG, fs)
                              else (case node_at fs (d @ [c]) of
                                      Some Dir \<Rightarrow> (Inl EISDIR, fs)
                                    | _ \<Rightarrow> (Inr (d @ [c]), fs(d @ [c] \<mapsto> File [])))))"

subsection \<open>RemoveAll\<close>

text \<open>
  \<^verbatim>\<open>os.RemoveAll(path)\<close> as the library has it on Linux. There is nothing to do for
  the empty path, and a path that ends in a \<open>.\<close> component is refused. Otherwise it
  tries \<^verbatim>\<open>Remove(path)\<close>; when that fails for another reason than that the path is not
  there, it opens the directory of the last name and removes the name from there, with
  all that is below it.
\<close>

definition endsWithDot :: "string \<Rightarrow> bool" where
  "endsWithDot name \<longleftrightarrow>
     name = ''.'' \<or> (2 \<le> length name \<and> name ! (length name - 1) = CHR ''.''
                      \<and> name ! (length name - 2) = CHR ''/'')"

definition remove_tree :: "fs \<Rightarrow> loc \<Rightarrow> fs" where
  "remove_tree fs l = (\<lambda>q. if prefix l q then None else fs q)"

definition remove_below :: "fs \<Rightarrow> loc \<Rightarrow> fs" where
  "remove_below fs l = (\<lambda>q. if strict_prefix l q then None else fs q)"

text \<open>
  \<^verbatim>\<open>Remove(path)\<close> is \<^verbatim>\<open>unlink\<close> and, when that fails, \<^verbatim>\<open>rmdir\<close>; the error is that of
  \<^verbatim>\<open>rmdir\<close> unless it is \<open>ENOTDIR\<close>. A regular file goes at once, unless the path ends in
  a separator. A directory goes at once when it is empty and is refused with
  \<open>ENOTEMPTY\<close> when it is not; then \<^verbatim>\<open>RemoveAll\<close> removes it from its parent, and ends
  with the same file system and the same \<^verbatim>\<open>nil\<close>. The model does not look into the
  directory: \<open>first_Remove\<close> is \<^verbatim>\<open>Remove\<close> as \<^verbatim>\<open>RemoveAll\<close> calls it, with every
  directory sent the second way.
\<close>

definition first_Remove :: "fs \<Rightarrow> string \<Rightarrow> error option \<times> fs" where
  "first_Remove fs name =
     (case path_check name of
        Some e \<Rightarrow> (Some e, fs)
      | None \<Rightarrow>
          let comps = strings_Split name CHR ''/''; cs = trim comps
          in if cs = [] then (Some EBUSY, fs)
             else case resolve fs [] (butlast cs) of
                    Inl e \<Rightarrow> (Some e, fs)
                  | Inr d \<Rightarrow>
                      (case node_at fs d of
                         None \<Rightarrow> (Some ENOENT, fs)
                       | Some (File x) \<Rightarrow> (Some ENOTDIR, fs)
                       | Some Dir \<Rightarrow>
                           let c = last cs
                           in if c = ''.'' then (Some EINVAL, fs)
                              else if c = ''..'' then (Some ENOTEMPTY, fs)
                              else if NAME_MAX < length c then (Some ENAMETOOLONG, fs)
                              else (case node_at fs (d @ [c]) of
                                      None \<Rightarrow> (Some ENOENT, fs)
                                    | Some (File x) \<Rightarrow>
                                        if cs \<noteq> comps then (Some ENOTDIR, fs)
                                        else (None, fs(d @ [c] := None))
                                    | Some Dir \<Rightarrow> (Some ENOTEMPTY, fs))))"

text \<open>
  \<^verbatim>\<open>splitPath(path)\<close> gives the directory and the last name of a path that is not empty:
  all but one separator go from the front and all separators from the end, but never
  the first character; then the path is cut at its last separator, the last character
  not looked at. \<open>front\<close> is the path up to that separator, the separator included.
\<close>

fun strip_leading :: "string \<Rightarrow> string" where
  "strip_leading (a # b # p) =
     (if a = CHR ''/'' \<and> b = CHR ''/'' then strip_leading (b # p) else a # b # p)"
| "strip_leading p = p"

definition strip_trailing :: "string \<Rightarrow> string" where
  "strip_trailing p =
     (case p of [] \<Rightarrow> [] | c # cs \<Rightarrow> c # rev (dropWhile (\<lambda>x. x = CHR ''/'') (rev cs)))"

definition splitPath :: "string \<Rightarrow> string \<times> string" where
  "splitPath path =
     (let p = strip_trailing (strip_leading path);
          front = rev (dropWhile (\<lambda>c. c \<noteq> CHR ''/'') (rev (butlast p)))
      in if front = [] then (''.'', p)
         else (if length front = 1 then front else butlast front, drop (length front) p))"

text \<open>
  \<^verbatim>\<open>removeAllFrom(parent, base)\<close>: \<^verbatim>\<open>unlinkat\<close> removes a regular file, and nothing is
  wrong when the name is not there. A directory is emptied, entry by entry, and
  removed with \<^verbatim>\<open>unlinkat(AT_REMOVEDIR)\<close>. That last call fails for \<open>.\<close>, \<open>..\<close> and \<open>/\<close>,
  after the directory they name has been emptied.
\<close>

definition removeAllFrom :: "fs \<Rightarrow> loc \<times> node \<Rightarrow> string \<Rightarrow> error option \<times> fs" where
  "removeAllFrom fs parent base =
     (case parent of (pl, pn) \<Rightarrow>
        if CHR 0x00 \<in> set base then (Some EINVAL, fs)
        else if base = ''/'' then (Some EBUSY, remove_below fs [])
        else case pn of
               File x \<Rightarrow> (Some ENOTDIR, fs)
             | Dir \<Rightarrow>
                 if base = ''.'' then (Some EINVAL, remove_below fs pl)
                 else if base = ''..'' then (Some ENOTEMPTY, remove_below fs (butlast pl))
                 else if NAME_MAX < length base then (Some ENAMETOOLONG, fs)
                 else (case node_at fs (pl @ [base]) of
                         None \<Rightarrow> (None, fs)
                       | Some (File x) \<Rightarrow> (None, fs(pl @ [base] := None))
                       | Some Dir \<Rightarrow> (None, remove_tree fs (pl @ [base]))))"

definition os_RemoveAll :: "fs \<Rightarrow> string \<Rightarrow> error option \<times> fs" where
  "os_RemoveAll fs path =
     (if path = [] then (None, fs)
      else if endsWithDot path then (Some EINVAL, fs)
      else case first_Remove fs path of
             (None, fs1) \<Rightarrow> (None, fs1)
           | (Some e, fs1) \<Rightarrow>
               if errors_Is_ErrNotExist (Some e) then (None, fs)
               else (case splitPath path of
                       (parentDir, base) \<Rightarrow>
                         (case os_Open fs parentDir of
                            Inl e' \<Rightarrow>
                              if errors_Is_ErrNotExist (Some e') then (None, fs) else (Some e', fs)
                          | Inr parent \<Rightarrow> removeAllFrom fs parent base)))"

section \<open>Copying streams\<close>

text \<open>
  \<^verbatim>\<open>io.Copy(dst, src)\<close> with its 32 KiB buffer; \<open>sofar\<close> is the running count \<^verbatim>\<open>written\<close>. The
  result is \<open>None\<close> when a read blocks forever.
\<close>

definition rsize :: "reader \<Rightarrow> nat" where
  "rsize r = sum_list (map (\<lambda>c. Suc (length c)) (chunks r))"

lemma Read_rsize:
  "Read n r = Some (got, None, r') \<Longrightarrow> 0 < n \<Longrightarrow> rsize r' < rsize r"
  by (induction n r rule: Read.induct) (auto simp: rsize_def split: if_splits)

function io_Copy_loop :: "writer \<Rightarrow> reader \<Rightarrow> nat \<Rightarrow> (nat \<times> error option \<times> writer \<times> reader) option" where
  "io_Copy_loop dst src sofar =
     (case Read (32 * 1024) src of
        None \<Rightarrow> None
      | Some (got, er, src') \<Rightarrow>
          if 0 < length got then
            (case Write got dst of
               (nw, ew, dst') \<Rightarrow>
                 (case ew of
                    Some e \<Rightarrow> Some (sofar + nw, Some e, dst', src')
                  | None \<Rightarrow>
                      if length got \<noteq> nw then Some (sofar + nw, Some ErrShortWrite, dst', src')
                      else (case er of
                              Some e \<Rightarrow> Some (sofar + nw, if e = EOF then None else Some e, dst', src')
                            | None \<Rightarrow> io_Copy_loop dst' src' (sofar + nw))))
          else (case er of
                  Some e \<Rightarrow> Some (sofar, if e = EOF then None else Some e, dst, src')
                | None \<Rightarrow> io_Copy_loop dst src' sofar))"
  by pat_completeness auto
termination
  by (relation "measure (\<lambda>(dst, src, sofar). rsize src)") (auto dest: Read_rsize)

definition io_Copy :: "writer \<Rightarrow> reader \<Rightarrow> (nat \<times> error option \<times> writer \<times> reader) option" where
  "io_Copy dst src = io_Copy_loop dst src 0"

text \<open>
  \<^verbatim>\<open>io.ReadFull(r, buf)\<close> for a buffer of \<open>need\<close> bytes: \<open>acc\<close> is what has been read so
  far.
\<close>

function io_ReadFull_loop :: "reader \<Rightarrow> nat \<Rightarrow> byte list \<Rightarrow> (byte list \<times> error option \<times> reader) option" where
  "io_ReadFull_loop r need acc =
     (if need \<le> length acc then Some (acc, None, r)
      else case Read (need - length acc) r of
             None \<Rightarrow> None
           | Some (got, err, r') \<Rightarrow>
               (case err of
                  None \<Rightarrow> io_ReadFull_loop r' need (acc @ got)
                | Some e \<Rightarrow>
                    if need \<le> length (acc @ got) then Some (acc @ got, None, r')
                    else if 0 < length (acc @ got) \<and> e = EOF
                         then Some (acc @ got, Some ErrUnexpectedEOF, r')
                         else Some (acc @ got, Some e, r')))"
  by pat_completeness auto
termination
  by (relation "measure (\<lambda>(r, need, acc). rsize r)") (auto dest: Read_rsize)

definition io_ReadFull :: "reader \<Rightarrow> nat \<Rightarrow> (byte list \<times> error option \<times> reader) option" where
  "io_ReadFull r need = io_ReadFull_loop r need []"

text \<open>
  \<^verbatim>\<open>io.LimitReader(r, n)\<close> reads from \<open>r\<close> and stops with \<open>EOF\<close> after \<open>n\<close> bytes. As a
  reader of its own it delivers the chunks of \<open>r\<close> cut off after \<open>n\<close> bytes;
  \<open>after_limit\<close> is what is left of \<open>r\<close> once the limited reader has been read to its end.
\<close>

fun limit_chunks :: "nat \<Rightarrow> byte list list \<Rightarrow> byte list list" where
  "limit_chunks n [] = []"
| "limit_chunks n (c # cs) =
     (if n = 0 then []
      else if length c \<le> n then c # limit_chunks (n - length c) cs
      else [take n c])"

fun rest_chunks :: "nat \<Rightarrow> byte list list \<Rightarrow> byte list list" where
  "rest_chunks n [] = []"
| "rest_chunks n (c # cs) =
     (if n = 0 then c # cs
      else if length c \<le> n then rest_chunks (n - length c) cs
      else drop n c # cs)"

definition io_LimitReader :: "reader \<Rightarrow> int \<Rightarrow> reader" where
  "io_LimitReader r n =
     Reader (limit_chunks (nat n) (chunks r))
            (if nat n \<le> length (pending r) then Some EOF else ending r)"

definition after_limit :: "reader \<Rightarrow> int \<Rightarrow> reader" where
  "after_limit r n = Reader (rest_chunks (nat n) (chunks r)) (ending r)"

section \<open>crypto.go: the stream cipher codec\<close>

text \<open>
  \<^verbatim>\<open>crypto/aes\<close> and \<^verbatim>\<open>crypto/cipher\<close> are not code of the repository. What
  \<^verbatim>\<open>crypto.go\<close> needs of them is: \<^verbatim>\<open>aes.NewCipher\<close> accepts keys of 16, 24 and 32 bytes
  and fails on any other; the block size is 16; a CTR stream made from a block and an
  IV is a keystream, and \<^verbatim>\<open>XORKeyStream\<close> XORs its input with the next bytes of that
  keystream. The keystream itself is the parameter \<open>E\<close> of everything below: \<open>E key iv i\<close>
  is byte \<open>i\<close> of the AES-CTR keystream for \<open>key\<close> and \<open>iv\<close>.
\<close>

type_synonym keystream = "byte list \<Rightarrow> byte list \<Rightarrow> nat \<Rightarrow> byte"

datatype block = AES_block "byte list"

definition aes_NewCipher :: "byte list \<Rightarrow> error + block" where
  "aes_NewCipher key =
     (if length key = 16 \<or> length key = 24 \<or> length key = 32 then Inr (AES_block key)
      else Inl (KeySizeError (length key)))"

definition BlockSize :: "block \<Rightarrow> nat" where
  "BlockSize b = 16"

datatype ctr_stream = CTR (ks: "nat \<Rightarrow> byte") (ctr_pos: nat)

definition cipher_NewCTR :: "keystream \<Rightarrow> block \<Rightarrow> byte list \<Rightarrow> ctr_stream" where
  "cipher_NewCTR E b iv = (case b of AES_block key \<Rightarrow> CTR (E key iv) 0)"

fun xor_keystream :: "(nat \<Rightarrow> byte) \<Rightarrow> nat \<Rightarrow> byte list \<Rightarrow> byte list" where
  "xor_keystream k p [] = []"
| "xor_keystream k p (x # xs) = (x XOR k p) # xor_keystream k (Suc p) xs"

definition XORKeyStream :: "ctr_stream \<Rightarrow> byte list \<Rightarrow> byte list \<times> ctr_stream" where
  "XORKeyStream st src =
     (xor_keystream (ks st) (ctr_pos st) src, CTR (ks st) (ctr_pos st + length src))"

text \<open>
  \<^verbatim>\<open>copyStream(stream, blockSize, src, dst)\<close>: \<open>nw\<close> starts at \<open>blockSize\<close>. The result
  is the pair \<^verbatim>\<open>(int, error)\<close> with the stream, the source and the destination as
  they are left, or \<open>None\<close> when a read blocks forever.
\<close>

function copyStream_loop :: "ctr_stream \<Rightarrow> reader \<Rightarrow> writer \<Rightarrow> nat
    \<Rightarrow> ((nat \<times> error option) \<times> ctr_stream \<times> reader \<times> writer) option" where
  "copyStream_loop stream src dst nw =
     (case Read (32 * 1024) src of
        None \<Rightarrow> None
      | Some (got, err, src') \<Rightarrow>
          if 0 < length got then
            (case XORKeyStream stream got of
               (buf, stream') \<Rightarrow>
                 (case Write buf dst of
                    (nn, werr, dst') \<Rightarrow>
                      (case werr of
                         Some e \<Rightarrow> Some ((0, Some e), stream', src', dst')
                       | None \<Rightarrow>
                           if err = Some EOF then Some ((nw + nn, None), stream', src', dst')
                           else (case err of
                                   Some e \<Rightarrow> Some ((0, Some e), stream', src', dst')
                                 | None \<Rightarrow> copyStream_loop stream' src' dst' (nw + nn)))))
          else if err = Some EOF then Some ((nw, None), stream, src', dst)
          else (case err of
                  Some e \<Rightarrow> Some ((0, Some e), stream, src', dst)
                | None \<Rightarrow> copyStream_loop stream src' dst nw))"
  by pat_completeness auto
termination
  by (relation "measure (\<lambda>(stream, src, dst, nw). rsize src)") (auto dest: Read_rsize)

definition copyStream :: "ctr_stream \<Rightarrow> nat \<Rightarrow> reader \<Rightarrow> writer
    \<Rightarrow> ((nat \<times> error option) \<times> ctr_stream \<times> reader \<times> writer) option" where
  "copyStream stream blockSize src dst = copyStream_loop stream src dst blockSize"

text \<open>
  \<^verbatim>\<open>copyDecrypt(key, src, dst)\<close>. The IV is read with one \<^verbatim>\<open>src.Read(iv)\<close>; the
  result is the pair \<^verbatim>\<open>(int, error)\<close>, the source and the destination afterwards.
\<close>

definition copyDecrypt :: "keystream \<Rightarrow> byte list \<Rightarrow> reader \<Rightarrow> writer
    \<Rightarrow> ((nat \<times> error option) \<times> reader \<times> writer) option" where
  "copyDecrypt E key src dst =
     (case aes_NewCipher key of
        Inl e \<Rightarrow> Some ((0, Some e), src, dst)
      | Inr block \<Rightarrow>
          (case Read (BlockSize block) src of
             None \<Rightarrow> None
           | Some (got, err, src1) \<Rightarrow>
               (case err of
                  Some e \<Rightarrow> Some ((0, Some e), src1, dst)
                | None \<Rightarrow>
                    let iv = fill (replicate (BlockSize block) 0) got;
                        stream = cipher_NewCTR E block iv
                    in (case copyStream stream (BlockSize block) src1 dst of
                          None \<Rightarrow> None
                        | Some (res, stream', src2, dst2) \<Rightarrow> Some (res, src2, dst2)))))"

text \<open>
  \<^verbatim>\<open>copyEncrypt(key, src, dst)\<close>. \<open>rand\<close> is \<^verbatim>\<open>crypto/rand.Reader\<close>, the source of
  the random IV.
\<close>

definition copyEncrypt :: "keystream \<Rightarrow> reader \<Rightarrow> byte list \<Rightarrow> reader \<Rightarrow> writer
    \<Rightarrow> ((nat \<times> error option) \<times> reader \<times> writer) option" where
  "copyEncrypt E rand key src dst =
     (case aes_NewCipher key of
        Inl e \<Rightarrow> Some ((0, Some e), src, dst)
      | Inr block \<Rightarrow>
          (case io_ReadFull rand (BlockSize block) of
             None \<Rightarrow> None
           | Some (iv, err, rand') \<Rightarrow>
               (case err of
                  Some e \<Rightarrow> Some ((0, Some e), src, dst)
                | None \<Rightarrow>
                    (case Write iv dst of
                       (n, werr, dst1) \<Rightarrow>
                         (case werr of
                            Some e \<Rightarrow> Some ((0, Some e), src, dst1)
                          | None \<Rightarrow>
                              let stream = cipher_NewCTR E block iv
                              in (case copyStream stream (BlockSize block) src dst1 of
                                    None \<Rightarrow> None
                                  | Some (res, stream', src2, dst2) \<Rightarrow> Some (res, src2, dst2)))))))"

section \<open>store.go: the store\<close>

text \<open>
  \<^verbatim>\<open>Store\<close> embeds \<^verbatim>\<open>StoreOpts\<close>; \<^verbatim>\<open>NewStore\<close> fills in a \<^verbatim>\<open>nil\<close> transform and an
  empty root, so a store's transform is a function. Every operation takes the file
  system and returns it as it stands afterwards.
\<close>

record StoreOpts =
  optRoot :: string
  optPathTransformFunc :: "(string \<Rightarrow> PathKey) option"

record Store =
  Root :: string
  PathTransformFunc :: "string \<Rightarrow> PathKey"

definition defaultRootFolderName :: string where
  "defaultRootFolderName = ''ggnetwork''"

definition NewStore :: "StoreOpts \<Rightarrow> Store" where
  "NewStore opts =
     \<lparr>Root = (if length (optRoot opts) = 0 then defaultRootFolderName else optRoot opts),
      PathTransformFunc =
        (case optPathTransformFunc opts of None \<Rightarrow> DefaultPathTransformFunc | Some f \<Rightarrow> f)\<rparr>"

fun err_of :: "error + 'a \<Rightarrow> error option" where
  "err_of (Inl e) = Some e"
| "err_of (Inr x) = None"

definition Has :: "Store \<Rightarrow> fs \<Rightarrow> string \<Rightarrow> string \<Rightarrow> bool" where
  "Has s fs ident key =
     (let pathKey = PathTransformFunc s key;
          fullPathWithRoot = Root s @ ''/'' @ ident @ ''/'' @ FullPath pathKey;
          err = err_of (os_Stat fs fullPathWithRoot)
      in \<not> errors_Is_ErrNotExist err)"

definition Clear :: "Store \<Rightarrow> fs \<Rightarrow> error option \<times> fs" where
  "Clear s fs = os_RemoveAll fs (Root s)"

definition Delete :: "Store \<Rightarrow> fs \<Rightarrow> string \<Rightarrow> string \<Rightarrow> error option \<times> fs" where
  "Delete s fs ident key =
     (let pathKey = PathTransformFunc s key;
          firstPathNameWithRoot = Root s @ ''/'' @ ident @ ''/'' @ FirstPathName pathKey
      in os_RemoveAll fs firstPathNameWithRoot)"

definition openFileForWriting :: "Store \<Rightarrow> fs \<Rightarrow> string \<Rightarrow> string \<Rightarrow> (error + loc) \<times> fs" where
  "openFileForWriting s fs ident key =
     (let pathKey = PathTransformFunc s key;
          pathNameWithRoot = Root s @ ''/'' @ ident @ ''/'' @ PathName pathKey
      in case os_MkdirAll fs pathNameWithRoot of
           (Some e, fs1) \<Rightarrow> (Inl e, fs1)
         | (None, fs1) \<Rightarrow>
             let fullPathWithRoot = Root s @ ''/'' @ ident @ ''/'' @ FullPath pathKey
             in os_Create fs1 fullPathWithRoot)"

text \<open>
  \<^verbatim>\<open>writeStream\<close> returns the pair \<^verbatim>\<open>(int64, error)\<close>, the file system and the reader
  afterwards; \<open>None\<close> when the reader blocks forever. The file just created is an
  unbounded writer; what was written to it is the file's content.
\<close>

definition writeStream :: "Store \<Rightarrow> fs \<Rightarrow> string \<Rightarrow> string \<Rightarrow> reader
    \<Rightarrow> ((nat \<times> error option) \<times> fs \<times> reader) option" where
  "writeStream s fs ident key r =
     (case openFileForWriting s fs ident key of
        (Inl e, fs1) \<Rightarrow> Some ((0, Some e), fs1, r)
      | (Inr f, fs1) \<Rightarrow>
          (case io_Copy (Writer [] None) r of
             None \<Rightarrow> None
           | Some (n, err, w, r') \<Rightarrow> Some ((n, err), fs1(f \<mapsto> File (written w)), r')))"

definition Store_Write :: "Store \<Rightarrow> fs \<Rightarrow> string \<Rightarrow> string \<Rightarrow> reader
    \<Rightarrow> ((nat \<times> error option) \<times> fs \<times> reader) option" where
  "Store_Write s fs ident key r = writeStream s fs ident key r"

definition WriteDecrypt :: "keystream \<Rightarrow> Store \<Rightarrow> fs \<Rightarrow> byte list \<Rightarrow> string \<Rightarrow> string \<Rightarrow> reader
    \<Rightarrow> ((nat \<times> error option) \<times> fs \<times> reader) option" where
  "WriteDecrypt E s fs encKey ident key r =
     (case openFileForWriting s fs ident key of
        (Inl e, fs1) \<Rightarrow> Some ((0, Some e), fs1, r)
      | (Inr f, fs1) \<Rightarrow>
          (case copyDecrypt E encKey r (Writer [] None) of
             None \<Rightarrow> None
           | Some ((n, err), r', w) \<Rightarrow> Some ((n, err), fs1(f \<mapsto> File (written w)), r')))"

text \<open>\<^verbatim>\<open>readStream\<close> returns the error, or the size and a reader over the node opened.\<close>

definition readStream :: "Store \<Rightarrow> fs \<Rightarrow> string \<Rightarrow> string \<Rightarrow> error + (nat \<times> reader)" where
  "readStream s fs ident key =
     (let pathKey = PathTransformFunc s key;
          fullPathWithRoot = Root s @ ''/'' @ ident @ ''/'' @ FullPath pathKey
      in case os_Open fs fullPathWithRoot of
           Inl e \<Rightarrow> Inl e
         | Inr (l, file) \<Rightarrow> Inr (fi_Size file, file_Reader file))"

definition Store_Read :: "Store \<Rightarrow> fs \<Rightarrow> string \<Rightarrow> string \<Rightarrow> error + (nat \<times> reader)" where
  "Store_Read s fs ident key = readStream s fs ident key"

text \<open>
  Names for what the claims about \<^verbatim>\<open>Delete\<close> talk about. \<open>descend cur cs\<close> is where the
  components \<open>cs\<close> lead from \<open>cur\<close>. \<open>bucket_comps\<close> are the components of the path
  \<^verbatim>\<open>Delete\<close> removes. A plain name is a component that is neither empty nor \<open>.\<close> nor
  \<open>..\<close>.
\<close>

definition descend :: "loc \<Rightarrow> string list \<Rightarrow> loc" where
  "descend cur cs = foldl step_loc cur cs"

definition bucket_comps :: "Store \<Rightarrow> string \<Rightarrow> string \<Rightarrow> string list" where
  "bucket_comps s ident key =
     strings_Split (Root s) CHR ''/'' @ strings_Split ident CHR ''/''
       @ [FirstPathName (PathTransformFunc s key)]"

definition plain_name :: "string \<Rightarrow> bool" where
  "plain_name c \<longleftrightarrow> c \<noteq> [] \<and> c \<noteq> ''.'' \<and> c \<noteq> ''..''"

text \<open>
  A small disk for examples: under root \<open>r\<close>, node \<open>n\<close> of a store with the identity
  transform holds key \<open>a\<close> with content \<open>[1]\<close> and key \<open>b\<close> with content \<open>[2]\<close>.
\<close>

definition example_disk :: fs where
  "example_disk =
     [[''r''] \<mapsto> Dir, [''r'', ''n''] \<mapsto> Dir,
      [''r'', ''n'', ''a''] \<mapsto> Dir, [''r'', ''n'', ''a'', ''a''] \<mapsto> File [1],
      [''r'', ''n'', ''b''] \<mapsto> Dir, [''r'', ''n'', ''b'', ''b''] \<mapsto> File [2]]"

definition example_store :: Store where
  "example_store = NewStore \<lparr>optRoot = ''r'', optPathTransformFunc = None\<rparr>"

section \<open>The file server\<close>

text \<open>
  A peer is a \<^verbatim>\<open>TCPPeer\<close> as the file server sees it: what its connection will still
  deliver, what has been written to it, and the counter of its \<^verbatim>\<open>WaitGroup\<close>. The Go map
  of peers is a list of pairs with distinct addresses; a \<^verbatim>\<open>range\<close> over the map visits
  them in the order of the list, which stands for the order Go happens to pick.
  The disk is part of the server's state. A call either returns, or blocks forever on
  a connection, or panics.
\<close>

record Peer =
  inbound :: reader
  outbound :: writer
  peer_wg :: int

datatype Message =
    MessageStoreFile string string int
  | MessageGetFile string string
  | OtherPayload

record FileServer =
  ID :: string
  EncKey :: "byte list"
  store :: Store
  peers :: "(string \<times> Peer) list"
  disk :: fs

datatype 'a outcome = Returns (returned: 'a) | Blocked | Panic

text \<open>
  What the file server uses of the standard library and is not modelled here: the
  AES-CTR keystream, MD5 and the gob encoding of a message.
\<close>

record lib =
  aes_ctr :: keystream
  md5_Sum :: "byte list \<Rightarrow> byte list"
  gob_Encode :: "Message \<Rightarrow> error + byte list"

definition hashKey :: "lib \<Rightarrow> string \<Rightarrow> string" where
  "hashKey L key = hex_EncodeToString (md5_Sum L (str_bytes key))"

definition Send :: "Peer \<Rightarrow> byte list \<Rightarrow> error option \<times> Peer" where
  "Send p b = (case Write b (outbound p) of (n, err, w) \<Rightarrow> (err, p\<lparr>outbound := w\<rparr>))"

text \<open>\<^verbatim>\<open>peer.CloseStream()\<close> is \<^verbatim>\<open>wg.Done()\<close>, which panics on a negative counter.\<close>

definition Peer_CloseStream :: "Peer \<Rightarrow> Peer option" where
  "Peer_CloseStream p = (if peer_wg p - 1 < 0 then None else Some (p\<lparr>peer_wg := peer_wg p - 1\<rparr>))"

text \<open>The connection after \<open>k\<close> of its bytes have been read.\<close>

definition advance :: "reader \<Rightarrow> nat \<Rightarrow> reader" where
  "advance r k = Reader (rest_chunks k (chunks r)) (ending r)"

text \<open>
  The connection of a peer after a limited reader \<open>lim\<close> on it was read until \<open>lim'\<close>
  was left of it.
\<close>

definition read_through :: "Peer \<Rightarrow> reader \<Rightarrow> reader \<Rightarrow> Peer" where
  "read_through p lim lim' =
     p\<lparr>inbound := advance (inbound p) (length (pending lim) - length (pending lim'))\<rparr>"

definition set_peer :: "string \<Rightarrow> Peer \<Rightarrow> (string \<times> Peer) list \<Rightarrow> (string \<times> Peer) list" where
  "set_peer a p ps = map (\<lambda>(a', p'). if a' = a then (a', p) else (a', p')) ps"

fun broadcast_loop :: "byte list \<Rightarrow> (string \<times> Peer) list \<Rightarrow> error option \<times> (string \<times> Peer) list" where
  "broadcast_loop buf [] = (None, [])"
| "broadcast_loop buf ((a, peer) # ps) =
     (case Send peer [IncomingMessage] of
        (err0, peer1) \<Rightarrow>
          (case Send peer1 buf of
             (Some e, peer2) \<Rightarrow> (Some e, (a, peer2) # ps)
           | (None, peer2) \<Rightarrow>
               (case broadcast_loop buf ps of (err, ps') \<Rightarrow> (err, (a, peer2) # ps'))))"

definition broadcast :: "lib \<Rightarrow> FileServer \<Rightarrow> Message \<Rightarrow> error option \<times> FileServer" where
  "broadcast L s msg =
     (case gob_Encode L msg of
        Inl e \<Rightarrow> (Some e, s)
      | Inr buf \<Rightarrow>
          (case broadcast_loop buf (peers s) of (err, ps) \<Rightarrow> (err, s\<lparr>peers := ps\<rparr>)))"

text \<open>\<^verbatim>\<open>binary.LittleEndian\<close> for an \<^verbatim>\<open>int64\<close>.\<close>

definition le_int64 :: "byte list \<Rightarrow> int" where
  "le_int64 bs = sint (foldr (\<lambda>b acc. push_bit 8 acc OR ucast b) bs (0 :: 64 word))"

definition le_bytes :: "int \<Rightarrow> byte list" where
  "le_bytes n = map (\<lambda>i. ucast (drop_bit (8 * i) (word_of_int n :: 64 word))) [0..<8]"

text \<open>
  \<^verbatim>\<open>binary.Read(peer, binary.LittleEndian, &fileSize)\<close>; \<^verbatim>\<open>Get\<close> drops its error, and
  \<open>fileSize\<close> stays 0 when the eight bytes did not arrive.
\<close>

definition binary_Read_int64 :: "reader \<Rightarrow> (int \<times> reader) option" where
  "binary_Read_int64 r =
     (case io_ReadFull r 8 of
        None \<Rightarrow> None
      | Some (bs, err, r') \<Rightarrow>
          (case err of Some e \<Rightarrow> Some (0, r') | None \<Rightarrow> Some (le_int64 bs, r')))"

text \<open>
  The second loop of \<^verbatim>\<open>Get\<close>: from every peer, the size and then that many bytes
  through \<^verbatim>\<open>WriteDecrypt\<close>. \<open>ps\<close> are the peers still to visit.
\<close>

fun Get_receive :: "lib \<Rightarrow> string \<Rightarrow> (string \<times> Peer) list \<Rightarrow> FileServer \<Rightarrow> (error option \<times> FileServer) outcome" where
  "Get_receive L key [] s = Returns (None, s)"
| "Get_receive L key ((a, peer) # ps) s =
     (case binary_Read_int64 (inbound peer) of
        None \<Rightarrow> Blocked
      | Some (fileSize, c1) \<Rightarrow>
          let lim = io_LimitReader c1 fileSize
          in (case WriteDecrypt (aes_ctr L) (store s) (disk s) (EncKey s) (ID s) key lim of
                None \<Rightarrow> Blocked
              | Some ((n, err), fs1, lim') \<Rightarrow>
                  let peer1 = read_through (peer\<lparr>inbound := c1\<rparr>) lim lim';
                      s1 = s\<lparr>disk := fs1, peers := set_peer a peer1 (peers s)\<rparr>
                  in (case err of
                        Some e \<Rightarrow> Returns (Some e, s1)
                      | None \<Rightarrow>
                          (case Peer_CloseStream peer1 of
                             None \<Rightarrow> Panic
                           | Some peer2 \<Rightarrow>
                               Get_receive L key ps (s1\<lparr>peers := set_peer a peer2 (peers s1)\<rparr>)))))"

text \<open>
  \<^verbatim>\<open>FileServer.Get(key)\<close> returns \<^verbatim>\<open>(io.Reader, error)\<close>: the error, or the reader.
  \<^verbatim>\<open>time.Sleep\<close> and the printing change nothing that is modelled.
\<close>

definition Get :: "lib \<Rightarrow> FileServer \<Rightarrow> string \<Rightarrow> ((error + reader) \<times> FileServer) outcome" where
  "Get L s key =
     (if Has (store s) (disk s) (ID s) key
      then (case Store_Read (store s) (disk s) (ID s) key of
              Inl e \<Rightarrow> Returns (Inl e, s)
            | Inr (n, r) \<Rightarrow> Returns (Inr r, s))
      else
        let msg = MessageGetFile (ID s) (hashKey L key)
        in (case broadcast L s msg of
              (Some e, s1) \<Rightarrow> Returns (Inl e, s1)
            | (None, s1) \<Rightarrow>
                (case Get_receive L key (peers s1) s1 of
                   Blocked \<Rightarrow> Blocked
                 | Panic \<Rightarrow> Panic
                 | Returns (Some e, s2) \<Rightarrow> Returns (Inl e, s2)
                 | Returns (None, s2) \<Rightarrow>
                     (case Store_Read (store s2) (disk s2) (ID s2) key of
                        Inl e \<Rightarrow> Returns (Inl e, s2)
                      | Inr (n, r) \<Rightarrow> Returns (Inr r, s2)))))"

text \<open>\<^verbatim>\<open>handleMessageStoreFile(from, msg)\<close> with the fields of \<open>msg\<close> as arguments.\<close>

definition handleMessageStoreFile :: "FileServer \<Rightarrow> string \<Rightarrow> string \<Rightarrow> string \<Rightarrow> int
    \<Rightarrow> (error option \<times> FileServer) outcome" where
  "handleMessageStoreFile s from msgID msgKey msgSize =
     (case map_of (peers s) from of
        None \<Rightarrow> Returns (Some (PeerNotFound from), s)
      | Some peer \<Rightarrow>
          let lim = io_LimitReader (inbound peer) msgSize
          in (case Store_Write (store s) (disk s) msgID msgKey lim of
                None \<Rightarrow> Blocked
              | Some ((n, err), fs1, lim') \<Rightarrow>
                  let peer1 = read_through peer lim lim';
                      s1 = s\<lparr>disk := fs1, peers := set_peer from peer1 (peers s)\<rparr>
                  in (case err of
                        Some e \<Rightarrow> Returns (Some e, s1)
                      | None \<Rightarrow>
                          (case Peer_CloseStream peer1 of
                             None \<Rightarrow> Panic
                           | Some peer2 \<Rightarrow>
                               Returns (None, s1\<lparr>peers := set_peer from peer2 (peers s1)\<rparr>)))))"

text \<open>\<^verbatim>\<open>handleMessageGetFile(from, msg)\<close>.\<close>

definition handleMessageGetFile :: "FileServer \<Rightarrow> string \<Rightarrow> string \<Rightarrow> string
    \<Rightarrow> (error option \<times> FileServer) outcome" where
  "handleMessageGetFile s from msgID msgKey =
     (if \<not> Has (store s) (disk s) msgID msgKey then Returns (Some (FileNotOnDisk msgKey), s)
      else case Store_Read (store s) (disk s) msgID msgKey of
             Inl e \<Rightarrow> Returns (Some e, s)
           | Inr (fileSize, r) \<Rightarrow>
               (case map_of (peers s) from of
                  None \<Rightarrow> Returns (Some (PeerNotFound from), s)
                | Some peer \<Rightarrow>
                    (case Send peer [IncomingStream] of
                       (err0, peer1) \<Rightarrow>
                         (case Send peer1 (le_bytes (int fileSize)) of
                            (err1, peer2) \<Rightarrow>
                              (case io_Copy (outbound peer2) r of
                                 None \<Rightarrow> Blocked
                               | Some (n, err, w, r') \<Rightarrow>
                                   Returns (err, s\<lparr>peers := set_peer from (peer2\<lparr>outbound := w\<rparr>) (peers s)\<rparr>))))))"

definition handleMessage :: "FileServer \<Rightarrow> string \<Rightarrow> Message \<Rightarrow> (error option \<times> FileServer) outcome" where
  "handleMessage s from msg =
     (case msg of
        MessageStoreFile i k n \<Rightarrow> handleMessageStoreFile s from i k n
      | MessageGetFile i k \<Rightarrow> handleMessageGetFile s from i k
      | OtherPayload \<Rightarrow> Returns (None, s))"

text \<open>
  A server for examples: node \<open>n\<close> on the example disk, with one peer whose connection
  is about to deliver the 19 bytes that \<^verbatim>\<open>copyEncrypt\<close> makes of the payload \<open>[1, 2, 3]\<close>
  under the example keystream and the IV of sixteen sevens.
\<close>

definition example_keystream :: keystream where
  "example_keystream key iv i = key ! (i mod 32) + iv ! (i mod 16) + of_nat i"

definition example_lib :: lib where
  "example_lib = \<lparr>aes_ctr = example_keystream, md5_Sum = take 16, gob_Encode = (\<lambda>m. Inr [])\<rparr>"

definition example_peer :: Peer where
  "example_peer =
     \<lparr>inbound = Reader [replicate 16 7 @ [9, 11, 9]] None, outbound = Writer [] None, peer_wg = 1\<rparr>"

definition example_server :: FileServer where
  "example_server =
     \<lparr>ID = ''n'', EncKey = replicate 32 1, store = example_store,
      peers = [(''peer'', example_peer)], disk = example_disk\<rparr>"

section \<open>Auxiliary facts\<close>

subsection \<open>Facts about reading\<close>

lemma Read_pending:
  "Read n r = Some (got, None, r') \<Longrightarrow>
     pending r = got @ pending r' \<and> length got \<le> n \<and> ending r' = ending r"
proof (induction n r rule: Read.induct)
  case (3 n c cs en)
  then show ?case
    by (auto simp: pending_def split: if_splits)
qed (simp_all add: pending_def)

lemma Read_nonempty:
  "Read n r = Some (got, None, r') \<Longrightarrow> 0 < n \<Longrightarrow> got \<noteq> []"
  by (induction n r rule: Read.induct) (auto split: if_splits)

lemma Read_some_pending:
  "pending r \<noteq> [] \<Longrightarrow> \<exists>got r'. Read n r = Some (got, None, r')"
  by (induction n r rule: Read.induct) (auto simp: pending_def)

lemma Read_error_iff:
  "Read n r = Some (got, Some e, r') \<longleftrightarrow>
     pending r = [] \<and> ending r = Some e \<and> got = [] \<and> r' = Reader [] (Some e)"
  by (induction n r rule: Read.induct) (auto simp: pending_def)

lemma Read_first_byte:
  assumes "pending r = b # rest"
  shows "\<exists>r1. Read 1 r = Some ([b], None, r1) \<and> pending r1 = rest \<and> ending r1 = ending r"
proof -
  from assms have "pending r \<noteq> []" by simp
  then obtain got r1 where rd: "Read 1 r = Some (got, None, r1)"
    using Read_some_pending by blast
  from Read_pending [OF rd] Read_nonempty [OF rd]
  have "pending r = got @ pending r1" "length got \<le> 1" "got \<noteq> []" "ending r1 = ending r"
    by simp_all
  moreover from this obtain x where "got = [x]"
    by (cases got) auto
  ultimately show ?thesis
    using assms rd by auto
qed

subsection \<open>Facts about the read loop\<close>

lemma Decode_first_read_error:
  assumes "Read 1 r = Some (got, Some e, r1)"
  shows "DefaultDecoder_Decode r msg = Some (None, msg, r1)"
  using assms by (simp add: DefaultDecoder_Decode_def)

lemma handleConn_step_delivered:
  assumes "handleConn_step addr t = Some u"
  shows "delivered u = delivered t \<and> rpcch u = rpcch t
       \<or> (\<exists>rpc. phase t = Sending rpc \<and> delivered u = delivered t @ [rpc]
              \<and> rpcch u = rpcch t @ [rpc] \<and> phase u = Decoding)"
  using assms
  by (cases "phase t")
     (auto simp: handleConn_step_def Let_def split: option.splits if_splits)

lemma handleConn_step_Sending:
  assumes "handleConn_step addr t = Some u" and "phase u = Sending rpc"
  shows "\<not> Stream rpc"
  using assms
  by (cases "phase t")
     (auto simp: handleConn_step_def Let_def split: option.splits if_splits)

lemma env_step_frame:
  assumes "env_step ev t = Some u"
  shows "delivered u = delivered t \<and> set (rpcch u) \<subseteq> set (rpcch t)
       \<and> (phase u = phase t \<or> phase u = Panicked)"
  using assms
  by (cases ev) (auto split: if_splits list.splits option.splits)

lemma no_stream_queued_loop:
  assumes "no_stream_queued t" and "handleConn_step addr t = Some u"
  shows "no_stream_queued u"
proof -
  from handleConn_step_delivered [OF assms(2)]
  have q: "list_all (\<lambda>rpc. \<not> Stream rpc) (delivered u) \<and> list_all (\<lambda>rpc. \<not> Stream rpc) (rpcch u)"
    using assms(1) by (auto simp: no_stream_queued_def)
  have "\<not> Stream rpc" if "phase u = Sending rpc" for rpc
    using handleConn_step_Sending [OF assms(2) that] .
  then have "case phase u of Sending rpc \<Rightarrow> \<not> Stream rpc | _ \<Rightarrow> True"
    by (cases "phase u") auto
  with q show ?thesis
    by (simp add: no_stream_queued_def)
qed

lemma no_stream_queued_env:
  assumes "no_stream_queued t" and "env_step ev t = Some u"
  shows "no_stream_queued u"
proof -
  from env_step_frame [OF assms(2)] assms(1)
  have "list_all (\<lambda>rpc. \<not> Stream rpc) (delivered u)"
       "list_all (\<lambda>rpc. \<not> Stream rpc) (rpcch u)"
       "phase u = phase t \<or> phase u = Panicked"
    by (auto simp: no_stream_queued_def list_all_iff)
  moreover from this(3) assms(1)
  have "case phase u of Sending rpc \<Rightarrow> \<not> Stream rpc | _ \<Rightarrow> True"
    by (auto simp: no_stream_queued_def)
  ultimately show ?thesis
    by (simp add: no_stream_queued_def)
qed

lemma reaches_no_stream_queued:
  assumes "reaches addr s t" and "no_stream_queued s"
  shows "no_stream_queued t"
  using assms
proof (induction rule: reaches.induct)
  case here
  then show ?case by simp
next
  case (loop t u)
  then show ?case by (blast intro: no_stream_queued_loop)
next
  case (env t ev u)
  then show ?case by (blast intro: no_stream_queued_env)
qed

lemma handleConn_start_no_stream_queued:
  "list_all (\<lambda>rpc. \<not> Stream rpc) q \<Longrightarrow> no_stream_queued (handleConn_start handshake onPeer c q)"
  by (auto simp: handleConn_start_def no_stream_queued_def Let_def split: option.splits)

lemma gate_inv_loop:
  assumes "gate_inv t" and "handleConn_step addr t = Some u"
  shows "gate_inv u"
  using assms
  by (cases "phase t")
     (auto simp: gate_inv_def handleConn_step_def Let_def split: option.splits if_splits)

lemma gate_inv_env:
  assumes "gate_inv t" and "env_step ev t = Some u"
  shows "gate_inv u"
  using assms
  by (cases ev; cases "phase t")
     (auto simp: gate_inv_def split: option.splits if_splits list.splits)

lemma reaches_gate_inv:
  assumes "reaches addr s t" and "gate_inv s"
  shows "gate_inv t"
  using assms
proof (induction rule: reaches.induct)
  case here
  then show ?case by simp
next
  case (loop t u)
  then show ?case by (blast intro: gate_inv_loop)
next
  case (env t ev u)
  then show ?case by (blast intro: gate_inv_env)
qed

lemma handleConn_start_gate_inv:
  "gate_inv (handleConn_start handshake onPeer c q)"
  by (auto simp: handleConn_start_def gate_inv_def Let_def split: option.splits)

subsection \<open>Facts about digests and paths\<close>

lemma length_sha1_Sum: "length (sha1_Sum m) = 20"
  by (simp add: sha1_Sum_def u32_bytes_def split: prod.splits)

lemma length_hex_EncodeToString: "length (hex_EncodeToString src) = 2 * length src"
  by (induction src) (simp_all add: hex_EncodeToString_def)

lemma nibble_less_16: "unat (drop_bit 4 (v :: byte)) < 16" "unat (v AND 0x0f) < 16"
proof -
  have "unat (drop_bit 4 v) = unat v div 2 ^ 4"
    by (simp add: unat_drop_bit_eq drop_bit_eq_div unat_div)
  moreover have "unat v < 2 ^ 8"
    using unsigned_less [of v] by simp
  ultimately show "unat (drop_bit 4 v) < 16"
    by simp
  have "unat (v AND 0x0f) \<le> unat (0x0f :: byte)"
    by (rule word_and_le1 [THEN word_le_nat_alt [THEN iffD1]])
  then show "unat (v AND 0x0f) < 16"
    by simp
qed

lemma hextable_no_slash: "n < 16 \<Longrightarrow> hextable ! n \<noteq> CHR ''/''"
proof -
  assume "n < 16"
  then have "hextable ! n \<in> set hextable"
    by (intro nth_mem) (simp add: hextable_def)
  moreover have "CHR ''/'' \<notin> set hextable"
    by (simp add: hextable_def)
  ultimately show ?thesis
    by metis
qed

lemma hex_no_slash: "CHR ''/'' \<notin> set (hex_EncodeToString src)"
  by (induction src) (auto simp: hex_EncodeToString_def hextable_no_slash nibble_less_16 dest: sym)

lemma strings_Split_nonempty [simp]: "strings_Split s sep \<noteq> []"
  by (induction s) (auto split: list.splits)

lemma strings_Split_no_sep: "sep \<notin> set s \<Longrightarrow> strings_Split s sep = [s]"
  by (induction s) auto

lemma strings_Split_append:
  "sep \<notin> set x \<Longrightarrow> strings_Split (x @ sep # s) sep = x # strings_Split s sep"
  by (induction x) auto

lemma strings_Split_append2:
  "strings_Split (a @ sep # b) sep = strings_Split a sep @ strings_Split b sep"
proof (induction a)
  case Nil
  then show ?case by simp
next
  case (Cons c a)
  then show ?case
    by (cases "strings_Split a sep") auto
qed

lemma strings_Split_Join:
  "segs \<noteq> [] \<Longrightarrow> \<forall>x \<in> set segs. sep \<notin> set x \<Longrightarrow>
     strings_Split (strings_Join segs [sep]) sep = segs"
proof (induction segs "[sep]" rule: strings_Join.induct)
  case 1
  then show ?case by simp
next
  case (2 x)
  then show ?case by (simp add: strings_Split_no_sep)
next
  case (3 x y ys)
  then show ?case by (simp add: strings_Split_append)
qed

text \<open>The eight segments of a 40-character digest.\<close>

lemma segments_of_40:
  assumes "length h = 40"
  shows "map (\<lambda>i. let from = i * 5; to = (i * 5) + 5 in take (to - from) (drop from h)) [0..<length h div 5]
           = [take 5 h, take 5 (drop 5 h), take 5 (drop 10 h), take 5 (drop 15 h),
              take 5 (drop 20 h), take 5 (drop 25 h), take 5 (drop 30 h), take 5 (drop 35 h)]"
proof -
  have "[0..<length h div 5] = [0, 1, 2, 3, 4, 5, 6, 7]"
    using assms by (simp add: upt_rec)
  then show ?thesis
    by (simp add: Let_def)
qed

lemma concat_segments_of_40:
  assumes "length h = 40"
  shows "take 5 h @ take 5 (drop 5 h) @ take 5 (drop 10 h) @ take 5 (drop 15 h) @
         take 5 (drop 20 h) @ take 5 (drop 25 h) @ take 5 (drop 30 h) @ take 5 (drop 35 h) = h"
proof -
  have step: "take 5 (drop n h) @ drop (n + 5) h = drop n h" for n
    by (metis add.commute append_take_drop_id drop_drop)
  have "drop 40 h = []"
    using assms by simp
  then have "take 5 (drop 35 h) = drop 35 h"
    using step [of 35] by simp
  then show ?thesis
    using step [of 0] step [of 5] step [of 10] step [of 15] step [of 20] step [of 25] step [of 30]
    by simp
qed

definition cas_segments :: "string \<Rightarrow> string list" where
  "cas_segments h = [take 5 h, take 5 (drop 5 h), take 5 (drop 10 h), take 5 (drop 15 h),
                     take 5 (drop 20 h), take 5 (drop 25 h), take 5 (drop 30 h), take 5 (drop 35 h)]"

lemma CAS_digest_length: "length (hex_EncodeToString (sha1_Sum m)) = 40"
  by (simp add: length_hex_EncodeToString length_sha1_Sum)

lemma CAS_PathName:
  "PathName (CASPathTransformFunc key)
     = strings_Join (cas_segments (hex_EncodeToString (sha1_Sum (str_bytes key)))) ''/''"
  using segments_of_40 [OF CAS_digest_length, of "str_bytes key"]
  by (simp add: CASPathTransformFunc_def Let_def cas_segments_def)

lemma CAS_Filename:
  "Filename (CASPathTransformFunc key) = hex_EncodeToString (sha1_Sum (str_bytes key))"
  by (simp add: CASPathTransformFunc_def Let_def)

lemma cas_segments_no_slash:
  "CHR ''/'' \<notin> set h \<Longrightarrow> \<forall>x \<in> set (cas_segments h). CHR ''/'' \<notin> set x"
  by (auto simp: cas_segments_def dest: in_set_takeD in_set_dropD)

lemma cas_segments_length:
  "length h = 40 \<Longrightarrow> \<forall>x \<in> set (cas_segments h). length x = 5"
  by (auto simp: cas_segments_def)

lemma CAS_Split_PathName:
  "strings_Split (PathName (CASPathTransformFunc key)) CHR ''/''
     = cas_segments (hex_EncodeToString (sha1_Sum (str_bytes key)))"
proof -
  have "cas_segments h \<noteq> []" for h
    by (simp add: cas_segments_def)
  then show ?thesis
    using strings_Split_Join [of "cas_segments (hex_EncodeToString (sha1_Sum (str_bytes key)))" "CHR ''/''"]
      cas_segments_no_slash [OF hex_no_slash]
    by (simp add: CAS_PathName)
qed

subsection \<open>The digest of one key, computed step by step\<close>

text \<open>
  SHA-1 of the key \<open>momsbestpicture\<close>, evaluated by the simplifier in small steps:
  the padded block, its sixteen words, the message schedule, the eighty rounds in eight
  runs of ten, the digest and its hex form.
\<close>

lemma schedule_numeral:
  "schedule (numeral n) w =
     schedule (pred_numeral n)
       (w @ [rotl 1 (w ! (length w - 3) XOR w ! (length w - 8) XOR w ! (length w - 14)
                     XOR w ! (length w - 16))])"
  by (simp add: numeral_eq_Suc)

lemma blocks_numeral:
  "blocks (numeral n) k xs = take k xs # blocks (pred_numeral n) k (drop k xs)"
  by (simp add: numeral_eq_Suc)

lemma replicate_40: "replicate 40 (0 :: byte) =
     [0, 0, 0, 0, 0, 0, 0, 0, 0, 0, 0, 0, 0, 0, 0, 0, 0, 0, 0, 0,
      0, 0, 0, 0, 0, 0, 0, 0, 0, 0, 0, 0, 0, 0, 0, 0, 0, 0, 0, 0]"
  by (simp add: numeral_eq_Suc)

lemma sha1_rounds_append_n:
  "length xs = n \<Longrightarrow>
   sha1_rounds i (xs @ ys) s = sha1_rounds (i + n) ys (sha1_rounds i xs s)"
  by (induction xs arbitrary: i n s) auto

lemma sha1_rounds_append:
  "sha1_rounds i (xs @ ys) s = sha1_rounds (i + length xs) ys (sha1_rounds i xs s)"
  by (induction xs arbitrary: i s) auto

lemma momsbestpicture_pad:
  "sha1_pad (str_bytes ''momsbestpicture'') =
     [109, 111, 109, 115, 98, 101, 115, 116, 112, 105, 99, 116, 117, 114, 101, 128, 0,
     0, 0, 0, 0, 0, 0, 0, 0, 0, 0, 0, 0, 0, 0, 0, 0, 0, 0, 0, 0, 0, 0, 0, 0, 0, 0, 0,
     0, 0, 0, 0, 0, 0, 0, 0, 0, 0, 0, 0, 0, 0, 0, 0, 0, 0, 0, 120]"
  by (simp add: sha1_pad_def str_bytes_def u64_bytes_def upt_rec replicate_40)

lemma momsbestpicture_words:
  "map be32 (blocks 16 4
     [109, 111, 109, 115, 98, 101, 115, 116, 112, 105, 99, 116, 117, 114, 101, 128, 0,
     0, 0, 0, 0, 0, 0, 0, 0, 0, 0, 0, 0, 0, 0, 0, 0, 0, 0, 0, 0, 0, 0, 0, 0, 0, 0, 0,
     0, 0, 0, 0, 0, 0, 0, 0, 0, 0, 0, 0, 0, 0, 0, 0, 0, 0, 0, 120]) =
     [1836019059, 1650815860, 1885954932, 1970431360, 0, 0, 0, 0, 0, 0, 0, 0, 0, 0, 0,
     120]"
  by (simp add: blocks_numeral be32_def)

lemma momsbestpicture_schedule:
  "schedule 64
     [1836019059, 1650815860, 1885954932, 1970431360, 0, 0, 0, 0, 0, 0, 0, 0, 0, 0, 0,
     120] =
     [1836019059, 1650815860, 1885954932, 1970431360, 0, 0, 0, 0, 0, 0, 0, 0, 0, 0, 0,
     120, 973872142, 774778344, 3771909656, 2667377436, 1549556688, 3248852017,
     1039787577, 3099113296, 4149420159, 665819042, 2966741648, 3546261190, 4159150308,
     3806518706, 2840902115, 3269592136, 2665369527, 2085871978, 2641425953, 632368312,
     3559098575, 220078564, 2359207482, 330127595, 2827966841, 142273640, 2480777597,
     2030443883, 97815361, 2105975495, 2216991243, 1368419601, 2907604049, 2876864355,
     373126405, 4191103181, 3961628079, 3927006618, 3019152138, 1288501371, 4162474910,
     3554818772, 2582732421, 179014142, 2087132259, 3220019602, 543824221, 2491808981,
     4178081457, 1115486287, 4006667765, 3237680177, 3281892626, 4022448909,
     1459588081, 2423068369, 3997536590, 2610266409, 911696773, 938551847, 134898186,
     3858590623, 1893309557, 2638012546]"
  by (simp add: schedule_numeral rotl_def)

lemma momsbestpicture_rounds_0:
  "sha1_rounds 0
     [1836019059, 1650815860, 1885954932, 1970431360, 0, 0, 0, 0, 0, 0]
     (1732584193, 4023233417, 2562383102, 271733878, 3285377520) =
     (3818872619, 2431025891, 2089813987, 2549207979, 68122808)"
  by (simp add: sha1_round_def rotl_def)

lemma momsbestpicture_rounds_10:
  "sha1_rounds 10
     [0, 0, 0, 0, 0, 120, 973872142, 774778344, 3771909656, 2667377436]
     (3818872619, 2431025891, 2089813987, 2549207979, 68122808) =
     (3195751981, 2457512578, 111004731, 2289922787, 4082679985)"
  by (simp add: sha1_round_def rotl_def)

lemma momsbestpicture_rounds_20:
  "sha1_rounds 20
     [1549556688, 3248852017, 1039787577, 3099113296, 4149420159, 665819042,
     2966741648, 3546261190, 4159150308, 3806518706]
     (3195751981, 2457512578, 111004731, 2289922787, 4082679985) =
     (3855337707, 3059920856, 1007859322, 3676112390, 94056242)"
  by (simp add: sha1_round_def rotl_def)

lemma momsbestpicture_rounds_30:
  "sha1_rounds 30
     [2840902115, 3269592136, 2665369527, 2085871978, 2641425953, 632368312,
     3559098575, 220078564, 2359207482, 330127595]
     (3855337707, 3059920856, 1007859322, 3676112390, 94056242) =
     (3711227017, 2483493045, 1631522438, 4215723121, 1875137312)"
  by (simp add: sha1_round_def rotl_def)

lemma momsbestpicture_rounds_40:
  "sha1_rounds 40
     [2827966841, 142273640, 2480777597, 2030443883, 97815361, 2105975495, 2216991243,
     1368419601, 2907604049, 2876864355]
     (3711227017, 2483493045, 1631522438, 4215723121, 1875137312) =
     (2564985700, 3722835812, 2910382977, 138097092, 2844245457)"
  by (simp add: sha1_round_def rotl_def)

lemma momsbestpicture_rounds_50:
  "sha1_rounds 50
     [373126405, 4191103181, 3961628079, 3927006618, 3019152138, 1288501371,
     4162474910, 3554818772, 2582732421, 179014142]
     (2564985700, 3722835812, 2910382977, 138097092, 2844245457) =
     (2776724658, 3249121035, 3305270066, 3051618724, 2439152387)"
  by (simp add: sha1_round_def rotl_def)

lemma momsbestpicture_rounds_60:
  "sha1_rounds 60
     [2087132259, 3220019602, 543824221, 2491808981, 4178081457, 1115486287,
     4006667765, 3237680177, 3281892626, 4022448909]
     (2776724658, 3249121035, 3305270066, 3051618724, 2439152387) =
     (2473234370, 1041646693, 2050548285, 811808413, 3653461987)"
  by (simp add: sha1_round_def rotl_def)

lemma momsbestpicture_rounds_70:
  "sha1_rounds 70
     [1459588081, 2423068369, 3997536590, 2610266409, 911696773, 938551847, 134898186,
     3858590623, 1893309557, 2638012546]
     (2473234370, 1041646693, 2050548285, 811808413, 3653461987) =
     (12525470, 2219470554, 743530627, 3338751161, 1355837967)"
  by (simp add: sha1_round_def rotl_def)

lemma momsbestpicture_rounds:
  "sha1_rounds 0
     [1836019059, 1650815860, 1885954932, 1970431360, 0, 0, 0, 0, 0, 0, 0, 0, 0, 0, 0,
     120, 973872142, 774778344, 3771909656, 2667377436, 1549556688, 3248852017,
     1039787577, 3099113296, 4149420159, 665819042, 2966741648, 3546261190, 4159150308,
     3806518706, 2840902115, 3269592136, 2665369527, 2085871978, 2641425953, 632368312,
     3559098575, 220078564, 2359207482, 330127595, 2827966841, 142273640, 2480777597,
     2030443883, 97815361, 2105975495, 2216991243, 1368419601, 2907604049, 2876864355,
     373126405, 4191103181, 3961628079, 3927006618, 3019152138, 1288501371, 4162474910,
     3554818772, 2582732421, 179014142, 2087132259, 3220019602, 543824221, 2491808981,
     4178081457, 1115486287, 4006667765, 3237680177, 3281892626, 4022448909,
     1459588081, 2423068369, 3997536590, 2610266409, 911696773, 938551847, 134898186,
     3858590623, 1893309557, 2638012546]
     (1732584193, 4023233417, 2562383102, 271733878, 3285377520) =
     (12525470, 2219470554, 743530627, 3338751161, 1355837967)"
proof -
  have r0: "sha1_rounds 0 (1836019059 # 1650815860 # 1885954932 # 1970431360 # 0 # 0 # 0 # 0 # 0 # 0 # rest) (1732584193, 4023233417, 2562383102, 271733878, 3285377520) =
            sha1_rounds 10 rest (3818872619, 2431025891, 2089813987, 2549207979, 68122808)" for rest
    using sha1_rounds_append_n [of "[1836019059, 1650815860, 1885954932, 1970431360, 0, 0, 0, 0, 0, 0]" 10 0 rest "(1732584193, 4023233417, 2562383102, 271733878, 3285377520)"]
    by (simp add: momsbestpicture_rounds_0 del: sha1_rounds.simps)
  have r10: "sha1_rounds 10 (0 # 0 # 0 # 0 # 0 # 120 # 973872142 # 774778344 # 3771909656 # 2667377436 # rest) (3818872619, 2431025891, 2089813987, 2549207979, 68122808) =
            sha1_rounds 20 rest (3195751981, 2457512578, 111004731, 2289922787, 4082679985)" for rest
    using sha1_rounds_append_n [of "[0, 0, 0, 0, 0, 120, 973872142, 774778344, 3771909656, 2667377436]" 10 10 rest "(3818872619, 2431025891, 2089813987, 2549207979, 68122808)"]
    by (simp add: momsbestpicture_rounds_10 del: sha1_rounds.simps)
  have r20: "sha1_rounds 20 (1549556688 # 3248852017 # 1039787577 # 3099113296 # 4149420159 # 665819042 #
            2966741648 # 3546261190 # 4159150308 # 3806518706 # rest) (3195751981, 2457512578, 111004731, 2289922787, 4082679985) =
            sha1_rounds 30 rest (3855337707, 3059920856, 1007859322, 3676112390, 94056242)" for rest
    using sha1_rounds_append_n [of "[1549556688, 3248852017, 1039787577, 3099113296, 4149420159, 665819042, 2966741648, 3546261190, 4159150308, 3806518706]" 10 20 rest "(3195751981, 2457512578, 111004731, 2289922787, 4082679985)"]
    by (simp add: momsbestpicture_rounds_20 del: sha1_rounds.simps)
  have r30: "sha1_rounds 30 (2840902115 # 3269592136 # 2665369527 # 2085871978 # 2641425953 # 632368312 #
            3559098575 # 220078564 # 2359207482 # 330127595 # rest) (3855337707, 3059920856, 1007859322, 3676112390, 94056242) =
            sha1_rounds 40 rest (3711227017, 2483493045, 1631522438, 4215723121, 1875137312)" for rest
    using sha1_rounds_append_n [of "[2840902115, 3269592136, 2665369527, 2085871978, 2641425953, 632368312, 3559098575, 220078564, 2359207482, 330127595]" 10 30 rest "(3855337707, 3059920856, 1007859322, 3676112390, 94056242)"]
    by (simp add: momsbestpicture_rounds_30 del: sha1_rounds.simps)
  have r40: "sha1_rounds 40 (2827966841 # 142273640 # 2480777597 # 2030443883 # 97815361 # 2105975495 #
            2216991243 # 1368419601 # 2907604049 # 2876864355 # rest) (3711227017, 2483493045, 1631522438, 4215723121, 1875137312) =
            sha1_rounds 50 rest (2564985700, 3722835812, 2910382977, 138097092, 2844245457)" for rest
    using sha1_rounds_append_n [of "[2827966841, 142273640, 2480777597, 2030443883, 97815361, 2105975495, 2216991243, 1368419601, 2907604049, 2876864355]" 10 40 rest "(3711227017, 2483493045, 1631522438, 4215723121, 1875137312)"]
    by (simp add: momsbestpicture_rounds_40 del: sha1_rounds.simps)
  have r50: "sha1_rounds 50 (373126405 # 4191103181 # 3961628079 # 3927006618 # 3019152138 # 1288501371 #
            4162474910 # 3554818772 # 2582732421 # 179014142 # rest) (2564985700, 3722835812, 2910382977, 138097092, 2844245457) =
            sha1_rounds 60 rest (2776724658, 3249121035, 3305270066, 3051618724, 2439152387)" for rest
    using sha1_rounds_append_n [of "[373126405, 4191103181, 3961628079, 3927006618, 3019152138, 1288501371, 4162474910, 3554818772, 2582732421, 179014142]" 10 50 rest "(2564985700, 3722835812, 2910382977, 138097092, 2844245457)"]
    by (simp add: momsbestpicture_rounds_50 del: sha1_rounds.simps)
  have r60: "sha1_rounds 60 (2087132259 # 3220019602 # 543824221 # 2491808981 # 4178081457 # 1115486287 #
            4006667765 # 3237680177 # 3281892626 # 4022448909 # rest) (2776724658, 3249121035, 3305270066, 3051618724, 2439152387) =
            sha1_rounds 70 rest (2473234370, 1041646693, 2050548285, 811808413, 3653461987)" for rest
    using sha1_rounds_append_n [of "[2087132259, 3220019602, 543824221, 2491808981, 4178081457, 1115486287, 4006667765, 3237680177, 3281892626, 4022448909]" 10 60 rest "(2776724658, 3249121035, 3305270066, 3051618724, 2439152387)"]
    by (simp add: momsbestpicture_rounds_60 del: sha1_rounds.simps)
  have r70: "sha1_rounds 70 (1459588081 # 2423068369 # 3997536590 # 2610266409 # 911696773 # 938551847 #
            134898186 # 3858590623 # 1893309557 # 2638012546 # rest) (2473234370, 1041646693, 2050548285, 811808413, 3653461987) =
            sha1_rounds 80 rest (12525470, 2219470554, 743530627, 3338751161, 1355837967)" for rest
    using sha1_rounds_append_n [of "[1459588081, 2423068369, 3997536590, 2610266409, 911696773, 938551847, 134898186, 3858590623, 1893309557, 2638012546]" 10 70 rest "(2473234370, 1041646693, 2050548285, 811808413, 3653461987)"]
    by (simp add: momsbestpicture_rounds_70 del: sha1_rounds.simps)
  show ?thesis
    by (simp only: r0 r10 r20 r30 r40 r50 r60 r70 sha1_rounds.simps(1))
qed

lemma momsbestpicture_block:
  "sha1_block (1732584193, 4023233417, 2562383102, 271733878, 3285377520)
     [109, 111, 109, 115, 98, 101, 115, 116, 112, 105, 99, 116, 117, 114, 101, 128, 0,
     0, 0, 0, 0, 0, 0, 0, 0, 0, 0, 0, 0, 0, 0, 0, 0, 0, 0, 0, 0, 0, 0, 0, 0, 0, 0, 0,
     0, 0, 0, 0, 0, 0, 0, 0, 0, 0, 0, 0, 0, 0, 0, 0, 0, 0, 0, 120] =
     (1745109663, 1947736675, 3305913729, 3610485039, 346248191)"
  by (simp add: sha1_block_def momsbestpicture_words momsbestpicture_schedule
        momsbestpicture_rounds del: sha1_rounds.simps)

lemma momsbestpicture_sha1:
  "sha1_Sum (str_bytes ''momsbestpicture'') =
     [104, 4, 66, 159, 116, 24, 26, 99, 197, 12, 61, 129, 215, 51, 161, 47, 20, 163,
     83, 255]"
  by (simp add: sha1_Sum_def momsbestpicture_pad blocks_numeral momsbestpicture_block
        u32_bytes_def)

lemma momsbestpicture_digest:
  "hex_EncodeToString (sha1_Sum (str_bytes ''momsbestpicture'')) =
     ''6804429f74181a63c50c3d81d733a12f14a353ff''"
  by (simp add: momsbestpicture_sha1 hex_EncodeToString_def hextable_def)

lemma CAS_momsbestpicture:
  "CASPathTransformFunc ''momsbestpicture'' =
     \<lparr>PathName = ''68044/29f74/181a6/3c50c/3d81d/733a1/2f14a/353ff'',
      Filename = ''6804429f74181a63c50c3d81d733a12f14a353ff''\<rparr>"
  by (simp add: CASPathTransformFunc_def momsbestpicture_digest Let_def upt_rec)

subsection \<open>Facts about the stream cipher\<close>

lemma Read_ending_Some:
  "ending r = Some e \<Longrightarrow> Read n r \<noteq> None"
  by (induction n r rule: Read.induct) auto

lemma Read_cases:
  assumes "ending r = Some e"
  shows "(\<exists>got r'. Read n r = Some (got, None, r') \<and> pending r = got @ pending r'
            \<and> ending r' = Some e \<and> length got \<le> n)
       \<or> (Read n r = Some ([], Some e, Reader [] (Some e)) \<and> pending r = [])"
proof -
  from Read_ending_Some [OF assms, of n] obtain got err r' where rd: "Read n r = Some (got, err, r')"
    by (cases "Read n r") auto
  show ?thesis
  proof (cases err)
    case None
    with rd Read_pending [of n r got r'] assms show ?thesis
      by auto
  next
    case (Some e')
    with rd Read_error_iff [of n r got e' r'] assms show ?thesis
      by auto
  qed
qed

lemma length_xor_keystream [simp]: "length (xor_keystream k p xs) = length xs"
  by (induction xs arbitrary: p) auto

lemma xor_keystream_append:
  "xor_keystream k p (xs @ ys) = xor_keystream k p xs @ xor_keystream k (p + length xs) ys"
  by (induction xs arbitrary: p) auto

lemma xor_keystream_twice [simp]: "xor_keystream k p (xor_keystream k p xs) = xs"
  by (induction xs arbitrary: p) (auto simp: xor.assoc)

text \<open>
  Copying from a source that ends with \<open>EOF\<close> to an unbounded destination: every
  pending byte is XORed with the keystream at its position and appended.
\<close>

lemma copyStream_loop_EOF:
  assumes "ending src = Some EOF"
  shows "copyStream_loop (CTR k p) src (Writer w None) nw
           = Some ((nw + length (pending src), None),
                   CTR k (p + length (pending src)),
                   Reader [] (Some EOF),
                   Writer (w @ xor_keystream k p (pending src)) None)"
  using assms
proof (induction "rsize src" arbitrary: src p w nw rule: less_induct)
  case less
  consider (data) got r' where "Read (32 * 1024) src = Some (got, None, r')"
      "pending src = got @ pending r'" "ending r' = Some EOF"
    | (finished) "Read (32 * 1024) src = Some ([], Some EOF, Reader [] (Some EOF))" "pending src = []"
    using Read_cases [OF less.prems, of "32 * 1024"] by blast
  then show ?case
  proof cases
    case (data got r')
    show ?thesis
    proof (cases "got = []")
      case True
      have "rsize r' < rsize src"
        using Read_rsize [OF data(1)] by simp
      from less.hyps [OF this data(3)] data True show ?thesis
        by (subst copyStream_loop.simps) simp
    next
      case False
      have "rsize r' < rsize src"
        using Read_rsize [OF data(1)] by simp
      from less.hyps [OF this data(3), of "p + length got" "w @ xor_keystream k p got" "nw + length got"]
        data False
      show ?thesis
        by (subst copyStream_loop.simps)
           (simp add: XORKeyStream_def xor_keystream_append add.assoc)
    qed
  next
    case finished
    then show ?thesis
      by (subst copyStream_loop.simps) simp
  qed
qed

lemma io_Copy_loop_EOF:
  assumes "ending src = Some EOF"
  shows "io_Copy_loop (Writer w None) src n
           = Some (n + length (pending src), None, Writer (w @ pending src) None, Reader [] (Some EOF))"
  using assms
proof (induction "rsize src" arbitrary: src w n rule: less_induct)
  case less
  consider (data) got r' where "Read (32 * 1024) src = Some (got, None, r')"
      "pending src = got @ pending r'" "ending r' = Some EOF"
    | (finished) "Read (32 * 1024) src = Some ([], Some EOF, Reader [] (Some EOF))" "pending src = []"
    using Read_cases [OF less.prems, of "32 * 1024"] by blast
  then show ?case
  proof cases
    case (data got r')
    have "rsize r' < rsize src"
      using Read_rsize [OF data(1)] by simp
    from less.hyps [OF this data(3)] data show ?thesis
      by (subst io_Copy_loop.simps) (simp add: add.assoc)
  next
    case finished
    then show ?thesis
      by (subst io_Copy_loop.simps) simp
  qed
qed

lemma io_ReadFull_loop_enough:
  assumes "need \<le> length acc + length (pending r)"
  shows "\<exists>r'. io_ReadFull_loop r need acc
              = Some (acc @ take (need - length acc) (pending r), None, r')
            \<and> pending r' = drop (need - length acc) (pending r) \<and> ending r' = ending r"
  using assms
proof (induction "rsize r" arbitrary: r acc rule: less_induct)
  case less
  show ?case
  proof (cases "need \<le> length acc")
    case True
    then show ?thesis
      by (subst io_ReadFull_loop.simps) simp
  next
    case False
    with less.prems have "pending r \<noteq> []"
      by auto
    then obtain got r1 where rd: "Read (need - length acc) r = Some (got, None, r1)"
      using Read_some_pending by blast
    from Read_pending [OF rd] have p: "pending r = got @ pending r1"
      "length got \<le> need - length acc" "ending r1 = ending r"
      by simp_all
    have "rsize r1 < rsize r"
      using Read_rsize [OF rd] False by simp
    moreover have "need \<le> length (acc @ got) + length (pending r1)"
      using less.prems p(1) by simp
    ultimately obtain r' where
      "io_ReadFull_loop r1 need (acc @ got)
         = Some ((acc @ got) @ take (need - length (acc @ got)) (pending r1), None, r')"
      "pending r' = drop (need - length (acc @ got)) (pending r1)" "ending r' = ending r1"
      using less.hyps [of r1 "acc @ got"] by blast
    with rd p False show ?thesis
      by (subst io_ReadFull_loop.simps) (simp add: ac_simps)
  qed
qed

subsection \<open>Facts about path names\<close>

lemma path_check_prefix:
  assumes "path_check (p @ q) = None" and "p \<noteq> []"
  shows "path_check p = None"
  using assms by (auto simp: path_check_def split: if_splits)

lemma strings_Split_slashes_front:
  "strings_Split (replicate k CHR ''/'' @ s) CHR ''/'' = replicate k [] @ strings_Split s CHR ''/''"
  by (induction k) auto

lemma strings_Split_slashes_back:
  "strings_Split (s @ replicate m CHR ''/'') CHR ''/'' = strings_Split s CHR ''/'' @ replicate m []"
proof (induction s)
  case Nil
  show ?case
    by (induction m) (auto simp: replicate_append_same)
next
  case (Cons c s)
  then show ?case
    by (cases "strings_Split s CHR ''/''") auto
qed

lemma trim_decomp: "\<exists>es. cs = trim cs @ es \<and> (\<forall>e \<in> set es. e = [])"
proof -
  let ?P = "\<lambda>c :: string. c = []"
  have "rev cs = takeWhile ?P (rev cs) @ dropWhile ?P (rev cs)"
    by simp
  then have "cs = rev (dropWhile ?P (rev cs)) @ rev (takeWhile ?P (rev cs))"
    by (metis rev_append rev_rev_ident)
  moreover have "\<forall>e \<in> set (rev (takeWhile ?P (rev cs))). e = []"
    by (auto dest: set_takeWhileD)
  ultimately show ?thesis
    unfolding trim_def by blast
qed

lemma trim_snoc: "b \<noteq> [] \<Longrightarrow> trim (xs @ b # replicate m []) = xs @ [b]"
  by (simp add: trim_def dropWhile_append)

lemma trim_last: "trim cs \<noteq> [] \<Longrightarrow> last (trim cs) \<noteq> []"
proof -
  assume "trim cs \<noteq> []"
  then have ne: "dropWhile (\<lambda>c. c = []) (rev cs) \<noteq> []"
    by (simp only: trim_def rev_is_Nil_conv not_False_eq_True)
  then have "hd (dropWhile (\<lambda>c. c = []) (rev cs)) \<noteq> []"
    using hd_dropWhile by blast
  then show ?thesis
    by (simp add: trim_def last_rev)
qed

subsection \<open>Facts about the walk\<close>

lemma resolve_append:
  "resolve fs cur (xs @ ys)
     = (case resolve fs cur xs of Inl e \<Rightarrow> Inl e | Inr l \<Rightarrow> resolve fs l ys)"
  by (induction xs arbitrary: cur) (auto split: option.splits node.splits)

lemma resolve_mono:
  assumes "resolve fs cur cs = Inr l"
    and "\<And>q. node_at fs q = Some Dir \<Longrightarrow> node_at fs' q = Some Dir"
  shows "resolve fs' cur cs = Inr l"
  using assms
  by (induction cs arbitrary: cur) (auto split: option.splits node.splits if_splits)

text \<open>In a file system that holds less, a walk ends where it did, or nowhere.\<close>

lemma resolve_shrink:
  assumes "resolve fs cur cs = Inr l"
    and "\<And>q n. node_at fs' q = Some n \<Longrightarrow> node_at fs q = Some n"
  shows "resolve fs' cur cs = Inr l \<or> resolve fs' cur cs = Inl ENOENT"
  using assms(1)
proof (induction cs arbitrary: cur)
  case Nil
  then show ?case by simp
next
  case (Cons c cs)
  from Cons.prems have d: "node_at fs cur = Some Dir" and short: "\<not> NAME_MAX < length c"
    and r: "resolve fs (step_loc cur c) cs = Inr l"
    by (auto split: option.splits node.splits if_splits)
  show ?case
  proof (cases "node_at fs' cur")
    case None
    then show ?thesis by simp
  next
    case (Some n)
    with assms(2) d have "n = Dir"
      by fastforce
    with Some short Cons.IH [OF r] show ?thesis
      by simp
  qed
qed

lemma resolve_top_empties: "resolve fs [] (replicate k [] @ cs) = resolve fs [] cs"
  by (induction k) (simp_all add: node_at_def step_loc_def NAME_MAX_def)


text \<open>
  A list of components is absent when the walk along it finds nothing: it fails with
  \<open>ENOENT\<close>, or it ends in a place that holds nothing.
\<close>

definition absent :: "fs \<Rightarrow> string list \<Rightarrow> bool" where
  "absent fs cs \<longleftrightarrow>
     (case resolve fs [] cs of Inl e \<Rightarrow> e = ENOENT | Inr l \<Rightarrow> node_at fs l = None)"

lemma absent_append: "absent fs xs \<Longrightarrow> absent fs (xs @ ys)"
  by (cases ys) (auto simp: absent_def resolve_append split: sum.splits)

lemma os_Stat_ENOENT_iff:
  "path_check p = None \<Longrightarrow> os_Stat fs p = Inl ENOENT \<longleftrightarrow> absent fs (strings_Split p CHR ''/'')"
  by (auto simp: os_Stat_def namei_def absent_def split: sum.splits option.splits)

lemma absent_step:
  assumes "resolve fs [] pre = Inr d" and "node_at fs d = Some Dir" and "length c \<le> NAME_MAX"
    and "node_at fs (step_loc d c) = None"
  shows "absent fs (pre @ [c])"
  using assms by (auto simp: absent_def resolve_append)

lemma absent_parent:
  assumes "resolve fs [] pre = Inr d" and "node_at fs d = None"
  shows "absent fs (pre @ [c])"
  using assms by (auto simp: absent_def resolve_append)

subsection \<open>Facts about Create and Stat\<close>

lemma os_Create_then_Stat:
  assumes "os_Create fs p = (Inr l, fs')"
  shows "path_check p = None"
    and "os_Stat (fs'(l \<mapsto> File d)) p = Inr (File d)"
proof -
  let ?comps = "strings_Split p CHR ''/''"
  let ?c = "last ?comps"
  from assms show pc: "path_check p = None"
    by (auto simp: os_Create_def split: option.splits)
  from assms pc have same: "trim ?comps = ?comps"
    by (auto simp: os_Create_def Let_def split: sum.splits option.splits node.splits if_splits)
  from assms pc same obtain dd where
    r: "resolve fs [] (butlast ?comps) = Inr dd" and
    dir: "node_at fs dd = Some Dir" and
    plain: "?c \<noteq> ''.''" "?c \<noteq> ''..''" and
    short: "\<not> NAME_MAX < length ?c" and
    nodir: "node_at fs (dd @ [?c]) \<noteq> Some Dir" and
    l: "l = dd @ [?c]" and fs': "fs' = fs(dd @ [?c] \<mapsto> File [])"
    by (auto simp: os_Create_def Let_def split: sum.splits option.splits node.splits if_splits)
  have "?c \<noteq> []"
    using trim_last [of ?comps] same by simp
  let ?fs = "fs'(l \<mapsto> File d)"
  have keep: "node_at ?fs q = Some Dir" if "node_at fs q = Some Dir" for q
    using that nodir l fs' by (auto simp: node_at_def)
  have "resolve ?fs [] (butlast ?comps) = Inr dd"
    using resolve_mono [OF r keep] .
  moreover have "node_at ?fs dd = Some Dir"
    using keep [OF dir] .
  moreover have "step_loc dd ?c = l"
    using plain \<open>?c \<noteq> []\<close> l by (simp add: step_loc_def)
  ultimately have "(case resolve ?fs [] (butlast ?comps) of Inl e \<Rightarrow> Inl e
                      | Inr m \<Rightarrow> resolve ?fs m [?c]) = Inr l"
    using short by simp
  then have "resolve ?fs [] (butlast ?comps @ [?c]) = Inr l"
    by (simp only: resolve_append)
  then have "resolve ?fs [] ?comps = Inr l"
    by simp
  moreover have "node_at ?fs l = Some (File d)"
    using l by (simp add: node_at_def)
  ultimately show "os_Stat ?fs p = Inr (File d)"
    using pc by (simp add: os_Stat_def namei_def)
qed

lemma writeStream_stores:
  assumes "writeStream s fs ident key r = Some ((n, None), fs1, r')"
    and "ending r = Some EOF"
  shows "n = length (pending r)
       \<and> path_check (Root s @ ''/'' @ ident @ ''/'' @ FullPath (PathTransformFunc s key)) = None
       \<and> os_Stat fs1 (Root s @ ''/'' @ ident @ ''/'' @ FullPath (PathTransformFunc s key))
           = Inr (File (pending r))"
proof -
  have copy: "io_Copy (Writer [] None) r
                = Some (length (pending r), None, Writer (pending r) None, Reader [] (Some EOF))"
    using io_Copy_loop_EOF [OF assms(2), of "[]" 0] by (simp add: io_Copy_def)
  from assms(1) copy obtain f fsA where
    op: "openFileForWriting s fs ident key = (Inr f, fsA)" and
    res: "n = length (pending r)" "fs1 = fsA(f \<mapsto> File (pending r))"
    by (auto simp: writeStream_def split: prod.splits sum.splits)
  from op obtain fsM where
    cr: "os_Create fsM (Root s @ ''/'' @ ident @ ''/'' @ FullPath (PathTransformFunc s key)) = (Inr f, fsA)"
    by (auto simp: openFileForWriting_def Let_def split: prod.splits option.splits)
  from os_Create_then_Stat(1) [OF cr] os_Create_then_Stat(2) [OF cr, of "pending r"] res
  show ?thesis
    by simp
qed

lemma Has_iff:
  "Has s fs ident key \<longleftrightarrow>
     os_Stat fs (Root s @ ''/'' @ ident @ ''/'' @ FullPath (PathTransformFunc s key)) \<noteq> Inl ENOENT"
  by (cases "os_Stat fs (Root s @ ''/'' @ ident @ ''/'' @ FullPath (PathTransformFunc s key))")
     (auto simp: Has_def Let_def)

lemma Store_Read_File:
  "os_Stat fs (Root s @ ''/'' @ ident @ ''/'' @ FullPath (PathTransformFunc s key)) = Inr (File d)
   \<Longrightarrow> Store_Read s fs ident key = Inr (length d, bytes_Reader d)"
  by (auto simp: Store_Read_def readStream_def os_Open_def os_Stat_def bytes_Reader_def
           split: sum.splits)

subsection \<open>Facts about splitPath\<close>

lemma strip_leading_decomp:
  "\<exists>k. path = replicate k CHR ''/'' @ strip_leading path
       \<and> (0 < k \<longrightarrow> (\<exists>t. strip_leading path = CHR ''/'' # t))"
proof (induction path rule: strip_leading.induct)
  case (1 a b p)
  show ?case
  proof (cases "a = CHR ''/'' \<and> b = CHR ''/''")
    case True
    from 1 [OF True] obtain k where
      k: "b # p = replicate k CHR ''/'' @ strip_leading (b # p)" and
      st: "0 < k \<longrightarrow> (\<exists>t. strip_leading (b # p) = CHR ''/'' # t)"
      by blast
    have "a # b # p = replicate (Suc k) CHR ''/'' @ strip_leading (a # b # p)"
      using True k by simp
    moreover have "\<exists>t. strip_leading (a # b # p) = CHR ''/'' # t"
    proof (cases k)
      case 0
      with k True show ?thesis
        by simp
    next
      case (Suc j)
      with st True show ?thesis
        by simp
    qed
    ultimately show ?thesis
      by blast
  next
    case False
    then have "a # b # p = replicate 0 CHR ''/'' @ strip_leading (a # b # p)"
      by auto
    then show ?thesis
      by blast
  qed
qed (rule exI [of _ 0], simp)+

lemma rev_dropWhile_takeWhile:
  "xs = rev (dropWhile P (rev xs)) @ rev (takeWhile P (rev xs))"
proof -
  have "rev xs = takeWhile P (rev xs) @ dropWhile P (rev xs)"
    by simp
  then show ?thesis
    by (metis rev_append rev_rev_ident)
qed

lemma strip_trailing_decomp:
  assumes "q \<noteq> []"
  shows "\<exists>m. q = strip_trailing q @ replicate m CHR ''/''"
    and "strip_trailing q \<noteq> []"
    and "hd (strip_trailing q) = hd q"
    and "last (strip_trailing q) = CHR ''/'' \<Longrightarrow> strip_trailing q = ''/''"
proof -
  from assms obtain c cs where q: "q = c # cs"
    by (cases q) auto
  let ?P = "\<lambda>x. x = CHR ''/''"
  let ?r = "rev (dropWhile ?P (rev cs))"
  let ?t = "rev (takeWhile ?P (rev cs))"
  have st: "strip_trailing q = c # ?r"
    by (simp add: strip_trailing_def q)
  have cs: "cs = ?r @ ?t"
    by (rule rev_dropWhile_takeWhile)
  have "\<forall>x \<in> set ?t. x = CHR ''/''"
    by (auto dest: set_takeWhileD)
  then have rep: "replicate (length ?t) CHR ''/'' = ?t"
    by (intro replicate_length_same) simp
  have "strip_trailing q @ replicate (length ?t) CHR ''/'' = (c # ?r) @ ?t"
    by (simp only: st rep)
  also have "\<dots> = c # (?r @ ?t)"
    by (simp only: append_Cons)
  also have "\<dots> = c # cs"
    using cs [symmetric] by (rule arg_cong)
  finally have "q = strip_trailing q @ replicate (length ?t) CHR ''/''"
    by (simp only: q)
  then show "\<exists>m. q = strip_trailing q @ replicate m CHR ''/''"
    by blast
  show "strip_trailing q \<noteq> []"
    by (simp only: st) simp
  show "hd (strip_trailing q) = hd q"
    by (simp add: strip_trailing_def q)
  show "strip_trailing q = ''/''" if l: "last (strip_trailing q) = CHR ''/''"
  proof (cases "dropWhile ?P (rev cs) = []")
    case True
    with l st show ?thesis
      by simp
  next
    case False
    then have "\<not> ?P (hd (dropWhile ?P (rev cs)))"
      by (rule hd_dropWhile)
    moreover have "last (strip_trailing q) = hd (dropWhile ?P (rev cs))"
    proof -
      from False have "?r \<noteq> []"
        by (simp only: rev_is_Nil_conv not_False_eq_True)
      then have "last (c # ?r) = last ?r"
        by (rule last_ConsR)
      then show ?thesis
        by (simp only: st last_rev)
    qed
    ultimately show ?thesis
      using l by simp
  qed
qed

text \<open>
  The directory and the name \<^verbatim>\<open>splitPath\<close> gives, in terms of components: the name is
  the last component that is not empty, and the directory leads where the components
  before it lead.
\<close>

lemma splitPath_trim:
  assumes "path \<noteq> []" and "splitPath path = (dir, base)"
  shows "(dir = ''.'' \<and> base = ''/'' \<and> trim (strings_Split path CHR ''/'') = [])
       \<or> (\<exists>pre. trim (strings_Split path CHR ''/'') = pre @ [base]
              \<and> base \<noteq> [] \<and> dir \<noteq> []
              \<and> (path_check path = None \<longrightarrow> path_check dir = None)
              \<and> (\<forall>fs. resolve fs [] (strings_Split dir CHR ''/'') = resolve fs [] pre))"
proof -
  define p where "p = strip_trailing (strip_leading path)"
  define front where "front = rev (dropWhile (\<lambda>c. c \<noteq> CHR ''/'') (rev (butlast p)))"
  define mid where "mid = rev (takeWhile (\<lambda>c. c \<noteq> CHR ''/'') (rev (butlast p)))"
  obtain k where k: "path = replicate k CHR ''/'' @ strip_leading path"
    and k0: "0 < k \<longrightarrow> (\<exists>t. strip_leading path = CHR ''/'' # t)"
    using strip_leading_decomp by blast
  have sl: "strip_leading path \<noteq> []"
  proof
    assume e: "strip_leading path = []"
    with k0 have "k = 0"
      by auto
    with k e assms(1) show False
      by simp
  qed
  from strip_trailing_decomp [OF sl] obtain m where
    m: "strip_leading path = p @ replicate m CHR ''/''" and
    p_ne: "p \<noteq> []" and
    hd_p: "hd p = hd (strip_leading path)" and
    last_p: "last p = CHR ''/'' \<Longrightarrow> p = ''/''"
    unfolding p_def by blast
  have comps: "strings_Split path CHR ''/''
                 = replicate k [] @ strings_Split p CHR ''/'' @ replicate m []"
    using strings_Split_slashes_front [of k "strip_leading path"]
          strings_Split_slashes_back [of p m] k m
    by simp
  have pbl: "p = butlast p @ [last p]"
    using p_ne by simp
  have bl: "butlast p = front @ mid"
    unfolding front_def mid_def by (rule rev_dropWhile_takeWhile)
  have mid: "CHR ''/'' \<notin> set mid"
    unfolding mid_def by (auto dest: set_takeWhileD)
  have sp: "splitPath path
              = (if front = [] then (''.'', p)
                 else (if length front = 1 then front else butlast front, drop (length front) p))"
    by (simp only: splitPath_def Let_def p_def front_def)
  show ?thesis
  proof (cases "front = []")
    case True
    with sp assms(2) have dir: "dir = ''.''" and base: "base = p"
      by simp_all
    show ?thesis
    proof (cases "p = ''/''")
      case True
      with comps have "\<forall>e \<in> set (strings_Split path CHR ''/''). e = []"
        by auto
      then have "trim (strings_Split path CHR ''/'') = []"
        by (simp add: trim_def)
      with True dir base show ?thesis
        by simp
    next
      case False
      with last_p have "last p \<noteq> CHR ''/''"
        by blast
      moreover have "CHR ''/'' \<notin> set (butlast p)"
        using bl mid \<open>front = []\<close> by simp
      ultimately have nos: "CHR ''/'' \<notin> set p"
        using pbl by (metis Un_iff empty_iff empty_set set_ConsD set_append)
      have "k = 0"
      proof (rule ccontr)
        assume "k \<noteq> 0"
        with k0 obtain t where "strip_leading path = CHR ''/'' # t"
          by auto
        with hd_p have "hd p = CHR ''/''"
          by simp
        with p_ne nos show False
          by (cases p) auto
      qed
      with comps nos have "strings_Split path CHR ''/'' = [] @ p # replicate m []"
        by (simp add: strings_Split_no_sep)
      then have "trim (strings_Split path CHR ''/'') = [] @ [p]"
        using trim_snoc [OF p_ne, of "[]" m] by simp
      moreover have "resolve fs [] (strings_Split dir CHR ''/'') = resolve fs [] []" for fs
        by (simp add: dir node_at_def step_loc_def NAME_MAX_def)
      moreover have "path_check dir = None"
        by (simp add: dir path_check_def PATH_MAX_def)
      ultimately show ?thesis
        using base p_ne dir by blast
    qed
  next
    case False
    with sp assms(2) have dir: "dir = (if length front = 1 then front else butlast front)"
      and base: "base = drop (length front) p"
      by auto
    from False have dw: "dropWhile (\<lambda>c. c \<noteq> CHR ''/'') (rev (butlast p)) \<noteq> []"
      by (simp add: front_def)
    from hd_dropWhile [OF dw] dw have fr: "last front = CHR ''/''"
      by (simp add: front_def last_rev)
    have p_eq: "p = front @ mid @ [last p]"
      using pbl bl by simp
    then have "drop (length front) p = drop (length front) (front @ mid @ [last p])"
      by simp
    then have base_eq: "base = mid @ [last p]"
      by (simp add: base)
    have "p \<noteq> ''/''"
      using bl False by auto
    with last_p have "last p \<noteq> CHR ''/''"
      by blast
    with mid have nos: "CHR ''/'' \<notin> set base" and base_ne: "base \<noteq> []"
      by (simp_all add: base_eq)
    define dp where "dp = butlast front"
    have front_eq: "front = dp @ ''/''"
      using False fr append_butlast_last_id [of front] by (simp add: dp_def)
    have "p = dp @ CHR ''/'' # base"
      using p_eq front_eq base_eq by simp
    then have "strings_Split p CHR ''/'' = strings_Split dp CHR ''/'' @ [base]"
      using strings_Split_append2 [of dp "CHR ''/''" base] nos
      by (simp add: strings_Split_no_sep)
    with comps have "strings_Split path CHR ''/''
                       = (replicate k [] @ strings_Split dp CHR ''/'') @ base # replicate m []"
      by simp
    then have tr: "trim (strings_Split path CHR ''/'')
                     = (replicate k [] @ strings_Split dp CHR ''/'') @ [base]"
      using trim_snoc [OF base_ne, of "replicate k [] @ strings_Split dp CHR ''/''" m] by simp
    have res: "resolve fs [] (strings_Split dir CHR ''/'')
                 = resolve fs [] (replicate k [] @ strings_Split dp CHR ''/'')" for fs
    proof (cases "length front = 1")
      case True
      with front_eq have "dp = []" "dir = ''/''"
        using dir by simp_all
      then show ?thesis
        using resolve_top_empties [of fs k "[[]]"]
        by (simp add: node_at_def step_loc_def NAME_MAX_def)
    next
      case False
      with dir have "dir = dp"
        by (simp add: dp_def)
      then show ?thesis
        by (simp add: resolve_top_empties)
    qed
    have "dir \<noteq> []"
    proof (cases "length front = 1")
      case True
      with dir False show ?thesis
        by simp
    next
      case False
      with front_eq have "dp \<noteq> []"
        by auto
      with dir False show ?thesis
        by (simp add: dp_def)
    qed
    have pcd: "path_check dir = None" if pc: "path_check path = None"
    proof (cases "length front = 1")
      case True
      with front_eq dir have "dir = ''/''"
        by simp
      then show ?thesis
        by (simp add: path_check_def PATH_MAX_def)
    next
      case False
      with dir have d: "dir = dp"
        by (simp add: dp_def)
      have "path = replicate k CHR ''/'' @ (dp @ CHR ''/'' # base) @ replicate m CHR ''/''"
        using k m \<open>p = dp @ CHR ''/'' # base\<close> by simp
      then have "set dp \<subseteq> set path" "length dp < length path"
        by auto
      with pc \<open>dir \<noteq> []\<close> d show ?thesis
        by (auto simp: path_check_def split: if_splits)
    qed
    have "trim (strings_Split path CHR ''/'') = (replicate k [] @ strings_Split dp CHR ''/'') @ [base]
          \<and> base \<noteq> [] \<and> dir \<noteq> []
          \<and> (path_check path = None \<longrightarrow> path_check dir = None)
          \<and> (\<forall>fs. resolve fs [] (strings_Split dir CHR ''/'')
                     = resolve fs [] (replicate k [] @ strings_Split dp CHR ''/''))"
      using tr res base_ne \<open>dir \<noteq> []\<close> pcd by blast
    then show ?thesis
      by (rule disjI2 [OF exI])
  qed
qed

subsection \<open>Facts about RemoveAll\<close>

lemma first_Remove_ENOENT:
  assumes "first_Remove fs path = (Some ENOENT, fs1)" and "path \<noteq> []"
  shows "absent fs (trim (strings_Split path CHR ''/''))"
proof -
  let ?cs = "trim (strings_Split path CHR ''/'')"
  from assms have pc: "path_check path = None"
    by (auto simp: first_Remove_def path_check_def split: option.splits if_splits)
  from assms pc have ne: "?cs \<noteq> []"
    by (auto simp: first_Remove_def Let_def split: if_splits)
  then have cs: "butlast ?cs @ [last ?cs] = ?cs"
    by simp
  show ?thesis
  proof (cases "resolve fs [] (butlast ?cs)")
    case (Inl e)
    with assms pc ne have "e = ENOENT"
      by (simp add: first_Remove_def Let_def)
    with Inl have "absent fs (butlast ?cs)"
      by (simp add: absent_def)
    from absent_append [OF this, of "[last ?cs]"] show ?thesis
      by (simp only: cs)
  next
    case (Inr d)
    show ?thesis
    proof (cases "node_at fs d")
      case None
      from absent_parent [OF Inr None, of "last ?cs"] show ?thesis
        by (simp only: cs)
    next
      case (Some n)
      with assms pc ne Inr have dir: "node_at fs d = Some Dir"
        and plain: "last ?cs \<noteq> ''.''" "last ?cs \<noteq> ''..''"
        and short: "length (last ?cs) \<le> NAME_MAX"
        and gone: "node_at fs (d @ [last ?cs]) = None"
        by (auto simp: first_Remove_def Let_def split: node.splits if_splits option.splits)
      have "last ?cs \<noteq> []"
        using trim_last [OF ne] .
      with plain have "step_loc d (last ?cs) = d @ [last ?cs]"
        by (simp add: step_loc_def)
      with gone have "node_at fs (step_loc d (last ?cs)) = None"
        by simp
      from absent_step [OF Inr dir short this] show ?thesis
        by (simp only: cs)
    qed
  qed
qed

lemma first_Remove_nil:
  assumes "first_Remove fs path = (None, fs1)"
  shows "\<exists>pre base d x. trim (strings_Split path CHR ''/'') = pre @ [base]
           \<and> resolve fs [] pre = Inr d \<and> node_at fs d = Some Dir
           \<and> base \<noteq> [] \<and> base \<noteq> ''.'' \<and> base \<noteq> ''..'' \<and> length base \<le> NAME_MAX
           \<and> node_at fs (d @ [base]) = Some (File x)
           \<and> fs1 = fs(d @ [base] := None)"
proof -
  let ?cs = "trim (strings_Split path CHR ''/'')"
  from assms have pc: "path_check path = None"
    by (auto simp: first_Remove_def split: option.splits)
  from assms pc have ne: "?cs \<noteq> []"
    by (auto simp: first_Remove_def Let_def split: if_splits)
  then have cs: "?cs = butlast ?cs @ [last ?cs]"
    by simp
  from assms pc ne obtain d x where
    "resolve fs [] (butlast ?cs) = Inr d" "node_at fs d = Some Dir"
    "last ?cs \<noteq> ''.''" "last ?cs \<noteq> ''..''" "length (last ?cs) \<le> NAME_MAX"
    "node_at fs (d @ [last ?cs]) = Some (File x)" "fs1 = fs(d @ [last ?cs] := None)"
    by (auto simp: first_Remove_def Let_def split: sum.splits node.splits if_splits option.splits)
  moreover have "last ?cs \<noteq> []"
    using trim_last [OF ne] .
  ultimately show ?thesis
    using cs by blast
qed

lemma removeAllFrom_nil:
  assumes "removeAllFrom fs (pl, pn) base = (None, fs')"
  shows "pn = Dir \<and> base \<noteq> ''.'' \<and> base \<noteq> ''..'' \<and> length base \<le> NAME_MAX
       \<and> (node_at fs (pl @ [base]) = None \<and> fs' = fs
          \<or> node_at fs (pl @ [base]) \<noteq> None
            \<and> (fs' = fs(pl @ [base] := None) \<or> fs' = remove_tree fs (pl @ [base])))"
  using assms
  by (auto simp: removeAllFrom_def split: if_splits node.splits option.splits)

text \<open>
  What \<^verbatim>\<open>RemoveAll\<close> has done when it returns \<^verbatim>\<open>nil\<close>: the path was not there and
  nothing has changed, or it has removed the last name of the path from the directory
  of that name.
\<close>

lemma os_RemoveAll_nil:
  assumes "os_RemoveAll fs path = (None, fs')" and "path \<noteq> []"
  shows "(fs' = fs \<and> absent fs (strings_Split path CHR ''/''))
       \<or> (\<exists>pre base d. trim (strings_Split path CHR ''/'') = pre @ [base]
              \<and> resolve fs [] pre = Inr d \<and> node_at fs d = Some Dir
              \<and> base \<noteq> [] \<and> base \<noteq> ''.'' \<and> base \<noteq> ''..'' \<and> length base \<le> NAME_MAX
              \<and> node_at fs (d @ [base]) \<noteq> None
              \<and> (fs' = fs(d @ [base] := None) \<or> fs' = remove_tree fs (d @ [base])))"
proof -
  let ?comps = "strings_Split path CHR ''/''"
  let ?cs = "trim ?comps"
  obtain es where es: "?comps = ?cs @ es"
    using trim_decomp by blast
  have up: "absent fs ?comps" if "absent fs ?cs"
    using absent_append [OF that, of es] es by simp
  obtain r fs1 where fr: "first_Remove fs path = (r, fs1)"
    by (cases "first_Remove fs path")
  show ?thesis
  proof (cases r)
    case None
    with fr assms have "fs' = fs1"
      by (simp add: os_RemoveAll_def split: if_splits)
    with first_Remove_nil [of fs path fs1] fr None show ?thesis
      by fastforce
  next
    case (Some e)
    show ?thesis
    proof (cases "e = ENOENT")
      case True
      with fr Some assms have "fs' = fs"
        by (simp add: os_RemoveAll_def split: if_splits)
      moreover have "absent fs ?comps"
        using first_Remove_ENOENT [of fs path fs1] fr Some True assms(2) up by simp
      ultimately show ?thesis
        by blast
    next
      case False
      obtain dir base where sp: "splitPath path = (dir, base)"
        by (cases "splitPath path")
      from splitPath_trim [OF assms(2) sp]
      consider (root) "dir = ''.''" "base = ''/''"
        | (name) pre where "?cs = pre @ [base]" "base \<noteq> []" "dir \<noteq> []"
            "\<And>fs. resolve fs [] (strings_Split dir CHR ''/'') = resolve fs [] pre"
        by blast
      then show ?thesis
      proof cases
        case root
        have "os_Open fs ''.'' = Inr ([], Dir)"
          by (simp add: os_Open_def namei_def path_check_def PATH_MAX_def node_at_def
                step_loc_def NAME_MAX_def)
        with fr Some False sp root assms have "removeAllFrom fs ([], Dir) ''/'' = (None, fs')"
          by (simp add: os_RemoveAll_def split: if_splits)
        then show ?thesis
          by (simp add: removeAllFrom_def)
      next
        case name
        show ?thesis
        proof (cases "os_Open fs dir")
          case (Inl e')
          with fr Some False sp assms have "e' = ENOENT" "fs' = fs"
            by (auto simp: os_RemoveAll_def split: if_splits)
          with Inl name(3) have "absent fs (strings_Split dir CHR ''/'')"
            by (auto simp: os_Open_def namei_def absent_def path_check_def
                     split: option.splits sum.splits if_splits)
          then have "absent fs pre"
            by (simp add: absent_def name(4))
          then have "absent fs ?cs"
            using absent_append [of fs pre "[base]"] name(1) by simp
          with \<open>fs' = fs\<close> up show ?thesis
            by blast
        next
          case (Inr parent)
          obtain pl pn where parent: "parent = (pl, pn)"
            by (cases parent)
          from Inr parent have pre: "resolve fs [] pre = Inr pl" and pn: "node_at fs pl = Some pn"
            using name(4) [of fs]
            by (auto simp: os_Open_def namei_def split: option.splits sum.splits)
          from fr Some False sp assms Inr parent
          have "removeAllFrom fs (pl, pn) base = (None, fs')"
            by (simp add: os_RemoveAll_def split: if_splits)
          from removeAllFrom_nil [OF this] have
            dir: "pn = Dir" and plain: "base \<noteq> ''.''" "base \<noteq> ''..''"
            and short: "length base \<le> NAME_MAX"
            and res: "node_at fs (pl @ [base]) = None \<and> fs' = fs
                    \<or> node_at fs (pl @ [base]) \<noteq> None
                      \<and> (fs' = fs(pl @ [base] := None) \<or> fs' = remove_tree fs (pl @ [base]))"
            by blast+
          from res show ?thesis
          proof
            assume a: "node_at fs (pl @ [base]) = None \<and> fs' = fs"
            have "step_loc pl base = pl @ [base]"
              using plain name(2) by (simp add: step_loc_def)
            with a have "node_at fs (step_loc pl base) = None"
              by simp
            from absent_step [OF pre _ short this] pn dir have "absent fs (pre @ [base])"
              by simp
            with a up name(1) show ?thesis
              by simp
          next
            assume "node_at fs (pl @ [base]) \<noteq> None
                      \<and> (fs' = fs(pl @ [base] := None) \<or> fs' = remove_tree fs (pl @ [base]))"
            with name(1,2) pre pn dir plain short show ?thesis
              by blast
          qed
        qed
      qed
    qed
  qed
qed

subsection \<open>Facts about the store's paths\<close>

lemma store_path_comps:
  "strings_Split (root @ ''/'' @ ident @ ''/'' @ x) CHR ''/''
     = strings_Split root CHR ''/'' @ strings_Split ident CHR ''/'' @ strings_Split x CHR ''/''"
  using strings_Split_append2 [of root "CHR ''/''" "ident @ ''/'' @ x"]
        strings_Split_append2 [of ident "CHR ''/''" x]
  by simp

lemma strings_Split_elem_no_sep:
  "x \<in> set (strings_Split s sep) \<Longrightarrow> sep \<notin> set x"
proof (induction s arbitrary: x)
  case Nil
  then show ?case by simp
next
  case (Cons c s)
  then show ?case
    by (cases "strings_Split s sep") (auto split: if_splits)
qed

lemma FirstPathName_hd:
  "FirstPathName pk = hd (strings_Split (PathName pk) CHR ''/'')"
  by (simp add: FirstPathName_def Let_def hd_conv_nth)

lemma FirstPathName_no_slash: "CHR ''/'' \<notin> set (FirstPathName pk)"
proof -
  have "FirstPathName pk \<in> set (strings_Split (PathName pk) CHR ''/'')"
    by (simp add: FirstPathName_hd)
  then show ?thesis
    using strings_Split_elem_no_sep by blast
qed

lemma strings_Split_FirstPathName:
  "strings_Split (FirstPathName pk) CHR ''/'' = [FirstPathName pk]"
  using FirstPathName_no_slash by (rule strings_Split_no_sep)

lemma strings_Split_FullPath:
  "strings_Split (FullPath pk) CHR ''/''
     = FirstPathName pk # tl (strings_Split (PathName pk) CHR ''/'')
         @ strings_Split (Filename pk) CHR ''/''"
  using strings_Split_append2 [of "PathName pk" "CHR ''/''" "Filename pk"]
  by (simp add: FullPath_def FirstPathName_hd)

lemma bucket_path_comps:
  "strings_Split (Root s @ ''/'' @ ident @ ''/'' @ FirstPathName (PathTransformFunc s key)) CHR ''/''
     = bucket_comps s ident key"
  by (simp only: store_path_comps strings_Split_FirstPathName bucket_comps_def)

lemma full_path_comps:
  "strings_Split (Root s @ ''/'' @ ident @ ''/'' @ FullPath (PathTransformFunc s key)) CHR ''/''
     = bucket_comps s ident key
         @ (tl (strings_Split (PathName (PathTransformFunc s key)) CHR ''/'')
            @ strings_Split (Filename (PathTransformFunc s key)) CHR ''/'')"
  by (simp only: store_path_comps strings_Split_FullPath bucket_comps_def) simp

subsection \<open>Facts about Delete\<close>

text \<open>After \<^verbatim>\<open>RemoveAll\<close> has returned \<^verbatim>\<open>nil\<close> the path is not there.\<close>

lemma os_RemoveAll_then_absent:
  assumes "os_RemoveAll fs path = (None, fs')" and "path \<noteq> []"
  shows "absent fs' (strings_Split path CHR ''/'')"
proof -
  let ?comps = "strings_Split path CHR ''/''"
  obtain es where es: "?comps = trim ?comps @ es"
    using trim_decomp by blast
  from os_RemoveAll_nil [OF assms]
  consider (same) "fs' = fs" "absent fs ?comps"
    | (gone) pre base d where "trim ?comps = pre @ [base]" "resolve fs [] pre = Inr d"
        "node_at fs d = Some Dir" "base \<noteq> []" "base \<noteq> ''.''" "base \<noteq> ''..''"
        "length base \<le> NAME_MAX"
        "fs' = fs(d @ [base] := None) \<or> fs' = remove_tree fs (d @ [base])"
    by blast
  then show ?thesis
  proof cases
    case same
    then show ?thesis
      by simp
  next
    case gone
    have less: "node_at fs q = Some n" if "node_at fs' q = Some n" for q n
      using that gone(8) by (auto simp: node_at_def remove_tree_def split: if_splits)
    have none: "node_at fs' (d @ [base]) = None"
      using gone(8) by (auto simp: node_at_def remove_tree_def)
    have step: "step_loc d base = d @ [base]"
      using gone(4,5,6) by (simp add: step_loc_def)
    have sh: "resolve fs' [] pre = Inr d \<or> resolve fs' [] pre = Inl ENOENT"
      using resolve_shrink [OF gone(2), of fs'] less by blast
    have "absent fs' (pre @ [base])"
    proof (cases "resolve fs' [] pre")
      case (Inl e)
      with sh have "absent fs' pre"
        by (auto simp: absent_def)
      then show ?thesis
        by (rule absent_append)
    next
      case (Inr l)
      with sh have l: "resolve fs' [] pre = Inr d"
        by auto
      show ?thesis
      proof (cases "node_at fs' d")
        case None
        from absent_parent [OF l None] show ?thesis .
      next
        case (Some n)
        with less gone(3) have "node_at fs' d = Some Dir"
          by fastforce
        from absent_step [OF l this gone(7)] none step show ?thesis
          by simp
      qed
    qed
    then have "absent fs' (trim ?comps @ es)"
      unfolding gone(1) by (rule absent_append)
    with es show ?thesis
      by simp
  qed
qed

text \<open>
  After a \<^verbatim>\<open>Delete\<close> that returned \<^verbatim>\<open>nil\<close>, the stat of the path of every key of the
  same first segment fails with \<open>ENOENT\<close>, when the path is one the system takes.
\<close>

lemma Delete_then_Stat:
  assumes "Delete s fs ident key = (None, fs2)"
    and "FirstPathName (PathTransformFunc s k') = FirstPathName (PathTransformFunc s key)"
    and "path_check (Root s @ ''/'' @ ident @ ''/'' @ FullPath (PathTransformFunc s k')) = None"
  shows "os_Stat fs2 (Root s @ ''/'' @ ident @ ''/'' @ FullPath (PathTransformFunc s k')) = Inl ENOENT"
proof -
  let ?p = "Root s @ ''/'' @ ident @ ''/'' @ FirstPathName (PathTransformFunc s key)"
  let ?q = "Root s @ ''/'' @ ident @ ''/'' @ FullPath (PathTransformFunc s k')"
  let ?rest = "tl (strings_Split (PathName (PathTransformFunc s k')) CHR ''/'')
                 @ strings_Split (Filename (PathTransformFunc s k')) CHR ''/''"
  have del: "os_RemoveAll fs ?p = (None, fs2)"
    using assms(1) by (simp add: Delete_def Let_def)
  have "?p \<noteq> []"
    by simp
  from os_RemoveAll_then_absent [OF del this] have "absent fs2 (bucket_comps s ident key)"
    by (simp only: bucket_path_comps)
  moreover have "bucket_comps s ident k' = bucket_comps s ident key"
    using assms(2) by (simp add: bucket_comps_def)
  ultimately have "absent fs2 (bucket_comps s ident k' @ ?rest)"
    using absent_append by simp
  then have "absent fs2 (strings_Split ?q CHR ''/'')"
    by (simp only: full_path_comps)
  with assms(3) show ?thesis
    by (simp only: os_Stat_ENOENT_iff)
qed

lemma Delete_then_not_Has:
  assumes "Delete s fs ident key = (None, fs2)"
    and "FirstPathName (PathTransformFunc s k') = FirstPathName (PathTransformFunc s key)"
    and "path_check (Root s @ ''/'' @ ident @ ''/'' @ FullPath (PathTransformFunc s k')) = None"
  shows "\<not> Has s fs2 ident k'"
  using Delete_then_Stat [OF assms] by (simp add: Has_iff)


subsection \<open>Facts about plain names\<close>

lemma descend_append: "descend cur (xs @ ys) = descend (descend cur xs) ys"
  by (simp add: descend_def)






subsection \<open>When Delete succeeds\<close>

lemma strings_Split_sets: "\<Union> (set ` set (strings_Split s sep)) \<subseteq> set s"
proof (induction s)
  case Nil
  then show ?case by simp
next
  case (Cons c s)
  then show ?case
    by (cases "strings_Split s sep") auto
qed

lemma strings_Split_set: "x \<in> set (strings_Split s sep) \<Longrightarrow> set x \<subseteq> set s"
  using strings_Split_sets [of s sep] by auto

lemma set_trim: "set (trim cs) \<subseteq> set cs"
  by (auto simp: trim_def dest: set_dropWhileD)

lemma endsWithDot_bucket:
  assumes "CHR ''/'' \<notin> set x" and "x \<noteq> ''.''"
  shows "\<not> endsWithDot (pre @ ''/'' @ x)"
proof (cases x rule: rev_cases)
  case Nil
  then show ?thesis
    by (simp add: endsWithDot_def nth_append)
next
  case (snoc ys y)
  show ?thesis
  proof (cases ys rule: rev_cases)
    case Nil
    with snoc assms show ?thesis
      by (auto simp: endsWithDot_def nth_append)
  next
    case (snoc zs z)
    with \<open>x = ys @ [y]\<close> assms(1) have "z \<noteq> CHR ''/''"
      by auto
    with snoc \<open>x = ys @ [y]\<close> show ?thesis
      by (auto simp: endsWithDot_def nth_append)
  qed
qed

text \<open>
  \<^verbatim>\<open>RemoveAll\<close> returns \<^verbatim>\<open>nil\<close> for a path the system takes whose last component is a
  name in a directory that is there.
\<close>

lemma os_RemoveAll_succeeds:
  assumes pc: "path_check path = None" and dot: "\<not> endsWithDot path"
    and tr: "trim (strings_Split path CHR ''/'') = pre @ [base]"
    and r: "resolve fs [] pre = Inr d" and dir: "node_at fs d = Some Dir"
    and plain: "plain_name base" and short: "length base \<le> NAME_MAX"
  shows "\<exists>fs'. os_RemoveAll fs path = (None, fs')"
proof -
  from pc have ne: "path \<noteq> []" and nonul: "CHR 0x00 \<notin> set path"
    by (auto simp: path_check_def split: if_splits)
  have "base \<in> set (strings_Split path CHR ''/'')"
    using set_trim [of "strings_Split path CHR ''/''"] tr by auto
  then have nul: "CHR 0x00 \<notin> set base" and slash: "base \<noteq> ''/''"
    using strings_Split_set [of base path "CHR ''/''"] nonul
      strings_Split_elem_no_sep [of base path "CHR ''/''"]
    by auto
  obtain r1 fs1 where fr: "first_Remove fs path = (r1, fs1)"
    by (cases "first_Remove fs path")
  show ?thesis
  proof (cases "r1 = None \<or> r1 = Some ENOENT")
    case True
    with fr ne dot show ?thesis
      by (auto simp: os_RemoveAll_def)
  next
    case False
    then obtain e where e: "r1 = Some e" "e \<noteq> ENOENT"
      by (cases r1) auto
    obtain dir' base' where sp: "splitPath path = (dir', base')"
      by (cases "splitPath path")
    from splitPath_trim [OF ne sp] tr have
      "base' = base" and res: "resolve fs [] (strings_Split dir' CHR ''/'') = Inr d"
      and pcd: "path_check dir' = None"
      using r pc by auto
    then have "os_Open fs dir' = Inr (d, Dir)"
      using dir by (simp add: os_Open_def namei_def)
    with fr e ne dot sp \<open>base' = base\<close>
    have "os_RemoveAll fs path = removeAllFrom fs (d, Dir) base"
      by (simp add: os_RemoveAll_def)
    moreover have "\<exists>fs'. removeAllFrom fs (d, Dir) base = (None, fs')"
      using nul slash plain short
      by (auto simp: removeAllFrom_def plain_name_def split: option.splits node.splits)
    ultimately show ?thesis
      by simp
  qed
qed

lemma hd_strings_Split: "\<exists>t. s = hd (strings_Split s sep) @ t"
proof (induction s)
  case Nil
  then show ?case by simp
next
  case (Cons c s)
  then show ?case
    by (cases "strings_Split s sep") (auto split: if_splits)
qed

text \<open>Where a stored file is, \<^verbatim>\<open>Delete\<close> returns \<^verbatim>\<open>nil\<close> when the first segment is a name.\<close>

lemma Delete_succeeds:
  assumes "os_Stat fs (Root s @ ''/'' @ ident @ ''/'' @ FullPath (PathTransformFunc s key)) = Inr n"
    and "plain_name (FirstPathName (PathTransformFunc s key))"
  shows "\<exists>fs2. Delete s fs ident key = (None, fs2)"
proof -
  let ?pk = "PathTransformFunc s key"
  let ?f = "FirstPathName ?pk"
  let ?base = "strings_Split (Root s) CHR ''/'' @ strings_Split ident CHR ''/''"
  let ?p = "Root s @ ''/'' @ ident @ ''/'' @ ?f"
  let ?q = "Root s @ ''/'' @ ident @ ''/'' @ FullPath ?pk"
  let ?rest = "tl (strings_Split (PathName ?pk) CHR ''/'') @ strings_Split (Filename ?pk) CHR ''/''"
  from assms(1) obtain l where pcq: "path_check ?q = None"
    and l: "resolve fs [] (strings_Split ?q CHR ''/'') = Inr l"
    by (auto simp: os_Stat_def namei_def split: option.splits sum.splits)
  obtain t where "PathName ?pk = ?f @ t"
    using hd_strings_Split [of "PathName ?pk" "CHR ''/''"] by (auto simp: FirstPathName_hd)
  then have "?q = ?p @ (t @ ''/'' @ Filename ?pk)"
    by (simp add: FullPath_def)
  with pcq have pc: "path_check ?p = None"
    using path_check_prefix [of ?p "t @ ''/'' @ Filename ?pk"] by simp
  have f: "?f \<noteq> []" "?f \<noteq> ''.''"
    using assms(2) by (simp_all add: plain_name_def)
  have dot: "\<not> endsWithDot ?p"
    using endsWithDot_bucket [OF FirstPathName_no_slash f(2), of "Root s @ ''/'' @ ident"] by simp
  have comps: "strings_Split ?p CHR ''/'' = ?base @ [?f]"
    using bucket_path_comps [of s ident key] by (simp add: bucket_comps_def)
  have tr: "trim (strings_Split ?p CHR ''/'') = ?base @ [?f]"
    using trim_snoc [OF f(1), of ?base 0] by (simp only: comps) simp
  have "strings_Split ?q CHR ''/'' = ?base @ ?f # ?rest"
    using full_path_comps [of s ident key] by (simp add: bucket_comps_def)
  with l obtain d where d: "resolve fs [] ?base = Inr d" and "resolve fs d (?f # ?rest) = Inr l"
    by (auto simp: resolve_append split: sum.splits)
  then have dir: "node_at fs d = Some Dir" and short: "length ?f \<le> NAME_MAX"
    by (auto split: option.splits node.splits if_splits)
  from os_RemoveAll_succeeds [OF pc dot tr d dir assms(2) short] show ?thesis
    by (simp add: Delete_def Let_def)
qed

text \<open>Under \<^verbatim>\<open>CASPathTransformFunc\<close> the first segment of every key is a name of five characters.\<close>

lemma CAS_first_segment_plain: "plain_name (FirstPathName (CASPathTransformFunc key))"
proof -
  let ?h = "hex_EncodeToString (sha1_Sum (str_bytes key))"
  have "FirstPathName (CASPathTransformFunc key) = take 5 ?h"
    by (simp add: FirstPathName_hd CAS_Split_PathName cas_segments_def)
  moreover have "length (take 5 ?h) = 5"
    using CAS_digest_length [of "str_bytes key"] by simp
  ultimately have "length (FirstPathName (CASPathTransformFunc key)) = 5"
    by (simp only:)
  then show ?thesis
    by (auto simp: plain_name_def)
qed

subsection \<open>Rules for evaluating examples\<close>

lemmas path_eval = path_check_def PATH_MAX_def NAME_MAX_def node_at_def step_loc_def trim_def
  namei_def os_Stat_def os_Lstat_def os_Open_def

lemmas write_eval = os_Mkdir_def os_MkdirAll.simps MkdirAll_parent_def os_Create_def

lemmas remove_eval = os_RemoveAll_def first_Remove_def splitPath_def strip_trailing_def
  removeAllFrom_def endsWithDot_def

lemmas store_eval = NewStore_def DefaultPathTransformFunc_def FullPath_def FirstPathName_def
  Has_def Delete_def Store_Read_def readStream_def Store_Write_def writeStream_def
  openFileForWriting_def Let_def

lemma example_disk_at:
  "example_disk [''r''] = Some Dir"
  "example_disk [''r'', ''n''] = Some Dir"
  "example_disk [''r'', ''n'', ''a''] = Some Dir"
  "example_disk [''r'', ''n'', ''a'', ''a''] = Some (File [1])"
  "example_disk [''r'', ''n'', ''b''] = Some Dir"
  "example_disk [''r'', ''n'', ''b'', ''b''] = Some (File [2])"
  "example_disk [''r'', ''n'', ''k''] = None"
  "example_disk [''r'', ''n'', ''k'', ''k''] = None"
  by (simp_all add: example_disk_def)

lemma long_key_Stat:
  "os_Stat example_disk (''r/n/'' @ replicate 256 CHR ''k'' @ ''/'' @ replicate 256 CHR ''k'')
     = Inl ENAMETOOLONG"
proof -
  have "strings_Split (replicate 256 CHR ''k'' @ CHR ''/'' # replicate 256 CHR ''k'') CHR ''/''
          = [replicate 256 CHR ''k'', replicate 256 CHR ''k'']"
    by (simp add: strings_Split_append strings_Split_no_sep)
  then show ?thesis
    by (simp add: path_eval example_disk_at)
qed

subsection \<open>Facts about limited readers and copies\<close>

lemma concat_limit_chunks: "concat (limit_chunks n cs) = take n (concat cs)"
  by (induction cs arbitrary: n) auto

lemma pending_LimitReader: "pending (io_LimitReader r n) = take (nat n) (pending r)"
  by (simp add: io_LimitReader_def pending_def concat_limit_chunks)

text \<open>A copy that returns no error has read its source to \<open>EOF\<close>.\<close>

lemma io_Copy_loop_nil_EOF:
  assumes "io_Copy_loop (Writer w None) src n = Some (m, None, w', src')"
  shows "ending src = Some EOF"
  using assms
proof (induction "rsize src" arbitrary: src w n rule: less_induct)
  case less
  from less.prems obtain got er r1 where rd: "Read (32 * 1024) src = Some (got, er, r1)"
    by (subst (asm) io_Copy_loop.simps) (auto split: option.splits)
  show ?case
  proof (cases er)
    case (Some e)
    with rd have "pending src = []" "ending src = Some e" "got = []"
      using Read_error_iff [of "32 * 1024" src got e r1] by simp_all
    moreover from less.prems rd Some \<open>got = []\<close> have "e = EOF"
      by (subst (asm) io_Copy_loop.simps) (auto split: if_splits)
    ultimately show ?thesis
      by simp
  next
    case None
    with rd have ne: "got \<noteq> []" and en: "ending r1 = ending src" and sz: "rsize r1 < rsize src"
      using Read_nonempty [of "32 * 1024" src got r1] Read_pending [of "32 * 1024" src got r1]
        Read_rsize [of "32 * 1024" src got r1]
      by simp_all
    from less.prems rd None ne
    have "io_Copy_loop (Writer (w @ got) None) r1 (n + length got) = Some (m, None, w', src')"
      by (subst (asm) io_Copy_loop.simps) simp
    from less.hyps [OF sz this] en show ?thesis
      by simp
  qed
qed

lemma writeStream_nil_EOF:
  assumes "writeStream s fs ident key r = Some ((n, None), fs1, r')"
  shows "ending r = Some EOF"
proof -
  from assms obtain w where "io_Copy (Writer [] None) r = Some (n, None, w, r')"
    by (auto simp: writeStream_def split: prod.splits sum.splits option.splits)
  then show ?thesis
    using io_Copy_loop_nil_EOF by (simp add: io_Copy_def)
qed

section \<open>The claims\<close>

subsection \<open>C1: encryption and decryption round-trip\<close>

text \<open>
  C1. For every 32-byte key, every keystream generator, every random source that
  yields the 16 bytes of an IV and every payload \<open>b\<close> (the bytes of a source that ends
  with \<open>EOF\<close>): \<^verbatim>\<open>copyEncrypt\<close> succeeds, returns \<open>len(b) + 16\<close> and writes exactly that
  many bytes, the IV first; \<^verbatim>\<open>copyDecrypt\<close> under the same key, reading those bytes
  back, succeeds and writes exactly \<open>b\<close>.
\<close>

theorem encrypt_then_decrypt_is_identity:
  assumes "length key = 32"
    and "16 \<le> length (pending rand)"
    and "ending src = Some EOF"
    and "pending src = b"
  shows "\<exists>out src' n r'.
           copyEncrypt E rand key src (Writer [] None)
             = Some ((length b + 16, None), src', Writer out None)
         \<and> length out = length b + 16
         \<and> take 16 out = take 16 (pending rand)
         \<and> copyDecrypt E key (bytes_Reader out) (Writer [] None)
             = Some ((n, None), r', Writer b None)"
proof -
  let ?iv = "take 16 (pending rand)"
  let ?k = "E key ?iv"
  let ?out = "?iv @ xor_keystream ?k 0 b"
  have iv_len: "length ?iv = 16"
    using assms(2) by simp
  have cipher: "aes_NewCipher key = Inr (AES_block key)"
    using assms(1) by (simp add: aes_NewCipher_def)
  obtain rand' where rf: "io_ReadFull rand 16 = Some (?iv, None, rand')"
    using io_ReadFull_loop_enough [of 16 "[]" rand] assms(2)
    by (auto simp: io_ReadFull_def)
  have enc_stream: "copyStream (CTR ?k 0) 16 src (Writer ?iv None)
          = Some ((16 + length b, None), CTR ?k (length b), Reader [] (Some EOF), Writer ?out None)"
    using copyStream_loop_EOF [OF assms(3), of ?k 0 ?iv 16] assms(4)
    by (simp add: copyStream_def)
  have enc: "copyEncrypt E rand key src (Writer [] None)
          = Some ((length b + 16, None), Reader [] (Some EOF), Writer ?out None)"
    using cipher rf enc_stream
    by (simp add: copyEncrypt_def BlockSize_def cipher_NewCTR_def)
  have out_ne: "?out \<noteq> []"
    using iv_len by auto
  have rd: "Read 16 (bytes_Reader ?out) = Some (?iv, None, Reader [xor_keystream ?k 0 b] (Some EOF))"
    using out_ne iv_len by (simp add: bytes_Reader_def)
  have fill: "fill (replicate 16 0) ?iv = ?iv"
    using iv_len by (simp add: fill_def)
  have dec_stream: "copyStream (CTR ?k 0) 16 (Reader [xor_keystream ?k 0 b] (Some EOF)) (Writer [] None)
          = Some ((16 + length b, None), CTR ?k (length b), Reader [] (Some EOF), Writer b None)"
    using copyStream_loop_EOF [of "Reader [xor_keystream ?k 0 b] (Some EOF)" ?k 0 "[]" 16]
    by (simp add: copyStream_def pending_def)
  have dec: "copyDecrypt E key (bytes_Reader ?out) (Writer [] None)
          = Some ((16 + length b, None), Reader [] (Some EOF), Writer b None)"
    using cipher rd fill dec_stream
    by (simp add: copyDecrypt_def BlockSize_def cipher_NewCTR_def)
  have "length ?out = length b + 16" "take 16 ?out = ?iv"
    using iv_len by simp_all
  with enc dec show ?thesis
    by blast
qed

theorem encrypt_then_decrypt_is_identity_witness:
  "length (replicate 32 (1 :: byte)) = 32
   \<and> 16 \<le> length (pending (Reader [replicate 16 7] None))
   \<and> ending (bytes_Reader [1, 2, 3]) = Some EOF
   \<and> pending (bytes_Reader [1, 2, 3]) = [1, 2, 3]
   \<and> (\<exists>out src' n r'.
           copyEncrypt (\<lambda>key iv i. key ! (i mod 32) + iv ! (i mod 16) + of_nat i)
               (Reader [replicate 16 7] None) (replicate 32 1) (bytes_Reader [1, 2, 3]) (Writer [] None)
             = Some ((19, None), src', Writer out None)
         \<and> length out = 19
         \<and> take 16 out = replicate 16 7
         \<and> copyDecrypt (\<lambda>key iv i. key ! (i mod 32) + iv ! (i mod 16) + of_nat i)
               (replicate 32 1) (bytes_Reader out) (Writer [] None)
             = Some ((n, None), r', Writer [1, 2, 3] None))"
proof -
  have h: "length (replicate 32 (1 :: byte)) = 32"
      "16 \<le> length (pending (Reader [replicate 16 7] None))"
      "ending (bytes_Reader [1, 2, 3]) = Some EOF"
      "pending (bytes_Reader [1, 2, 3]) = [1, 2, 3]"
    by (simp_all add: pending_def bytes_Reader_def)
  from encrypt_then_decrypt_is_identity
         [OF h, of "\<lambda>key iv i. key ! (i mod 32) + iv ! (i mod 16) + of_nat i"]
  have "\<exists>out src' n r'.
           copyEncrypt (\<lambda>key iv i. key ! (i mod 32) + iv ! (i mod 16) + of_nat i)
               (Reader [replicate 16 7] None) (replicate 32 1) (bytes_Reader [1, 2, 3]) (Writer [] None)
             = Some ((19, None), src', Writer out None)
         \<and> length out = 19
         \<and> take 16 out = replicate 16 7
         \<and> copyDecrypt (\<lambda>key iv i. key ! (i mod 32) + iv ! (i mod 16) + of_nat i)
               (replicate 32 1) (bytes_Reader out) (Writer [] None)
             = Some ((n, None), r', Writer [1, 2, 3] None)"
    by (simp add: pending_def)
  with h show ?thesis
    by blast
qed

subsection \<open>C2: the default path transform\<close>

text \<open>
  C2. \<^verbatim>\<open>CASPathTransformFunc\<close> is a function of the key alone, so two calls on one key
  give one PathKey. For every key the leaf name is the hex digest of the key, 40
  characters long; the path name, split at \<open>/\<close>, is eight segments of five characters
  each, which concatenated are the digest again; and the full path is the path name,
  a \<open>/\<close> and the digest. The key \<open>momsbestpicture\<close> is one instance.
\<close>

theorem cas_path_is_digest_in_groups_of_five:
  "(\<forall>k. k = key \<longrightarrow> CASPathTransformFunc k = CASPathTransformFunc key)
   \<and> Filename (CASPathTransformFunc key) = hex_EncodeToString (sha1_Sum (str_bytes key))
   \<and> length (Filename (CASPathTransformFunc key)) = 40
   \<and> length (strings_Split (PathName (CASPathTransformFunc key)) CHR ''/'') = 8
   \<and> (\<forall>seg \<in> set (strings_Split (PathName (CASPathTransformFunc key)) CHR ''/''). length seg = 5)
   \<and> concat (strings_Split (PathName (CASPathTransformFunc key)) CHR ''/'')
       = hex_EncodeToString (sha1_Sum (str_bytes key))
   \<and> PathName (CASPathTransformFunc key)
       = strings_Join (strings_Split (PathName (CASPathTransformFunc key)) CHR ''/'') ''/''
   \<and> FullPath (CASPathTransformFunc key)
       = PathName (CASPathTransformFunc key) @ ''/'' @ hex_EncodeToString (sha1_Sum (str_bytes key))"
proof -
  let ?h = "hex_EncodeToString (sha1_Sum (str_bytes key))"
  have len: "length ?h = 40"
    by (rule CAS_digest_length)
  have split: "strings_Split (PathName (CASPathTransformFunc key)) CHR ''/'' = cas_segments ?h"
    by (rule CAS_Split_PathName)
  have "concat (cas_segments ?h) = ?h"
    using concat_segments_of_40 [OF len] by (simp add: cas_segments_def)
  moreover have "length (cas_segments ?h) = 8"
    by (simp add: cas_segments_def)
  moreover have "\<forall>seg \<in> set (cas_segments ?h). length seg = 5"
    using cas_segments_length [OF len] .
  ultimately show ?thesis
    using len split CAS_PathName [of key] CAS_Filename [of key]
    by (simp add: FullPath_def)
qed

theorem cas_path_is_digest_in_groups_of_five_witness:
  "length (Filename (CASPathTransformFunc ''momsbestpicture'')) = 40
   \<and> Filename (CASPathTransformFunc ''momsbestpicture'')
       = hex_EncodeToString (sha1_Sum (str_bytes ''momsbestpicture''))
   \<and> length (strings_Split (PathName (CASPathTransformFunc ''momsbestpicture'')) CHR ''/'') = 8
   \<and> list_all (\<lambda>seg. length seg = 5)
        (strings_Split (PathName (CASPathTransformFunc ''momsbestpicture'')) CHR ''/'')
   \<and> concat (strings_Split (PathName (CASPathTransformFunc ''momsbestpicture'')) CHR ''/'')
       = Filename (CASPathTransformFunc ''momsbestpicture'')
   \<and> Filename (CASPathTransformFunc ''momsbestpicture'')
       = ''6804429f74181a63c50c3d81d733a12f14a353ff''
   \<and> PathName (CASPathTransformFunc ''momsbestpicture'')
       = ''68044/29f74/181a6/3c50c/3d81d/733a1/2f14a/353ff''
   \<and> FullPath (CASPathTransformFunc ''momsbestpicture'')
       = ''68044/29f74/181a6/3c50c/3d81d/733a1/2f14a/353ff/6804429f74181a63c50c3d81d733a12f14a353ff''"
proof -
  note T = cas_path_is_digest_in_groups_of_five [of "''momsbestpicture''"]
  note c2 = T [THEN conjunct2, THEN conjunct1]
  note c3 = T [THEN conjunct2, THEN conjunct2, THEN conjunct1]
  note c4 = T [THEN conjunct2, THEN conjunct2, THEN conjunct2, THEN conjunct1]
  note c5 = T [THEN conjunct2, THEN conjunct2, THEN conjunct2, THEN conjunct2, THEN conjunct1]
  note c6 = T [THEN conjunct2, THEN conjunct2, THEN conjunct2, THEN conjunct2, THEN conjunct2,
               THEN conjunct1]
  have w4: "list_all (\<lambda>seg. length seg = 5)
        (strings_Split (PathName (CASPathTransformFunc ''momsbestpicture'')) CHR ''/'')"
    unfolding list_all_iff by (rule c5)
  have w5: "concat (strings_Split (PathName (CASPathTransformFunc ''momsbestpicture'')) CHR ''/'')
        = Filename (CASPathTransformFunc ''momsbestpicture'')"
    by (simp only: c6 c2)
  have w6: "Filename (CASPathTransformFunc ''momsbestpicture'')
          = ''6804429f74181a63c50c3d81d733a12f14a353ff''"
    by (simp only: CAS_momsbestpicture PathKey.simps)
  have w7: "PathName (CASPathTransformFunc ''momsbestpicture'')
          = ''68044/29f74/181a6/3c50c/3d81d/733a1/2f14a/353ff''"
    by (simp only: CAS_momsbestpicture PathKey.simps)
  have w8: "FullPath (CASPathTransformFunc ''momsbestpicture'')
          = ''68044/29f74/181a6/3c50c/3d81d/733a1/2f14a/353ff/6804429f74181a63c50c3d81d733a12f14a353ff''"
    unfolding FullPath_def w6 w7 by simp
  show ?thesis
    by (intro conjI) (fact c2 c3 c4 w4 w5 w6 w7 w8)+
qed
subsection \<open>C3: handling a StoreFile message\<close>

text \<open>
  C3, as the code has it. \<^verbatim>\<open>handleMessageStoreFile\<close> hands the connection, limited to
  the announced size, to \<^verbatim>\<open>Store.Write\<close>, not to \<^verbatim>\<open>WriteDecrypt\<close>. Whenever the handler
  returns \<^verbatim>\<open>nil\<close>, the blob stored for the announced node id and key is, byte for byte,
  what the connection delivered, up to the announced size.
\<close>

theorem store_file_handler_persists_received_bytes:
  assumes "map_of (peers s) addr = Some peer"
    and "handleMessageStoreFile s addr msgID msgKey msgSize = Returns (None, s1)"
    and "received = take (nat msgSize) (pending (inbound peer))"
  shows "(\<exists>lim'. Store_Write (store s) (disk s) msgID msgKey (io_LimitReader (inbound peer) msgSize)
                    = Some ((length received, None), disk s1, lim'))
       \<and> store s1 = store s
       \<and> Has (store s1) (disk s1) msgID msgKey
       \<and> Store_Read (store s1) (disk s1) msgID msgKey = Inr (length received, bytes_Reader received)"
proof -
  let ?lim = "io_LimitReader (inbound peer) msgSize"
  let ?q = "Root (store s) @ ''/'' @ msgID @ ''/'' @ FullPath (PathTransformFunc (store s) msgKey)"
  from assms(1,2) obtain n fs1 lim' where
    w: "Store_Write (store s) (disk s) msgID msgKey ?lim = Some ((n, None), fs1, lim')"
    and s1: "disk s1 = fs1" "store s1 = store s"
    by (auto simp: handleMessageStoreFile_def Let_def
             split: option.splits prod.splits)
  have ws: "writeStream (store s) (disk s) msgID msgKey ?lim = Some ((n, None), fs1, lim')"
    using w by (simp add: Store_Write_def)
  from writeStream_stores [OF ws writeStream_nil_EOF [OF ws]] assms(3)
  have n: "n = length received" and st: "os_Stat fs1 ?q = Inr (File received)"
    by (simp_all add: pending_LimitReader)
  have "Has (store s1) (disk s1) msgID msgKey"
    using st s1 by (simp add: Has_iff)
  moreover have "Store_Read (store s1) (disk s1) msgID msgKey = Inr (length received, bytes_Reader received)"
    using Store_Read_File [OF st] s1 by simp
  ultimately show ?thesis
    using w n s1 by auto
qed

text \<open>
  The claim as the specification states it fails. The example peer delivers the
  encryption of \<open>[1, 2, 3]\<close>. The handler stores those 19 bytes as they came; the
  decrypting write path, given the same bytes, would have stored \<open>[1, 2, 3]\<close>.
\<close>

theorem store_file_handler_does_not_decrypt_counterexample:
  "fst (returned (handleMessage example_server ''peer'' (MessageStoreFile ''n'' ''k'' 19))) = None
   \<and> Store_Read example_store
        (disk (snd (returned (handleMessage example_server ''peer'' (MessageStoreFile ''n'' ''k'' 19)))))
        ''n'' ''k''
       = Inr (19, bytes_Reader (replicate 16 7 @ [9, 11, 9]))
   \<and> fst (the (WriteDecrypt example_keystream example_store example_disk (replicate 32 1) ''n'' ''k''
                  (io_LimitReader (inbound example_peer) 19)))
       = (19, None)
   \<and> Store_Read example_store
        (fst (snd (the (WriteDecrypt example_keystream example_store example_disk (replicate 32 1)
                          ''n'' ''k'' (io_LimitReader (inbound example_peer) 19)))))
        ''n'' ''k''
       = Inr (3, bytes_Reader [1, 2, 3])"
proof -
  have plain: "handleMessage example_server ''peer'' (MessageStoreFile ''n'' ''k'' 19)
      = Returns (None,
          example_server\<lparr>disk := example_disk([''r'', ''n'', ''k''] \<mapsto> Dir,
                               [''r'', ''n'', ''k'', ''k''] \<mapsto> File (replicate 16 7 @ [9, 11, 9])),
                         peers := [(''peer'', example_peer\<lparr>inbound := Reader [] None, peer_wg := 0\<rparr>)]\<rparr>)"
    by (simp add: handleMessage_def handleMessageStoreFile_def example_server_def example_peer_def
          example_store_def NewStore_def DefaultPathTransformFunc_def FullPath_def
          Store_Write_def writeStream_def openFileForWriting_def path_eval write_eval
          io_Copy_def io_LimitReader_def pending_def
          read_through_def advance_def set_peer_def Peer_CloseStream_def Let_def
          example_disk_at)
  have dec: "WriteDecrypt example_keystream example_store example_disk (replicate 32 1) ''n'' ''k''
               (io_LimitReader (inbound example_peer) 19)
      = Some ((19, None),
          example_disk([''r'', ''n'', ''k''] \<mapsto> Dir, [''r'', ''n'', ''k'', ''k''] \<mapsto> File [1, 2, 3]),
          Reader [] (Some EOF))"
    by (simp add: WriteDecrypt_def copyDecrypt_def copyStream_def aes_NewCipher_def BlockSize_def
          cipher_NewCTR_def XORKeyStream_def fill_def example_keystream_def example_peer_def
          example_store_def NewStore_def DefaultPathTransformFunc_def FullPath_def
          openFileForWriting_def path_eval write_eval io_LimitReader_def pending_def Let_def
          example_disk_at)
  show ?thesis
    unfolding plain dec
    by (simp add: Store_Read_def readStream_def path_eval example_store_def
          NewStore_def DefaultPathTransformFunc_def FullPath_def
          example_disk_at bytes_Reader_def)
qed

theorem store_file_handler_persists_received_bytes_witness:
  "map_of (peers example_server) ''peer'' = Some example_peer
   \<and> handleMessageStoreFile example_server ''peer'' ''n'' ''k'' 19
       = Returns (None,
          example_server\<lparr>disk := example_disk([''r'', ''n'', ''k''] \<mapsto> Dir,
                               [''r'', ''n'', ''k'', ''k''] \<mapsto> File (replicate 16 7 @ [9, 11, 9])),
                         peers := [(''peer'', example_peer\<lparr>inbound := Reader [] None, peer_wg := 0\<rparr>)]\<rparr>)
   \<and> replicate 16 7 @ [9, 11, 9] = take (nat 19) (pending (inbound example_peer))
   \<and> Store_Read example_store
        (example_disk([''r'', ''n'', ''k''] \<mapsto> Dir,
                      [''r'', ''n'', ''k'', ''k''] \<mapsto> File (replicate 16 7 @ [9, 11, 9])))
        ''n'' ''k''
       = Inr (19, bytes_Reader (replicate 16 7 @ [9, 11, 9]))"
proof -
  have p: "map_of (peers example_server) ''peer'' = Some example_peer"
    by (simp add: example_server_def)
  have h: "handleMessageStoreFile example_server ''peer'' ''n'' ''k'' 19
      = Returns (None,
          example_server\<lparr>disk := example_disk([''r'', ''n'', ''k''] \<mapsto> Dir,
                               [''r'', ''n'', ''k'', ''k''] \<mapsto> File (replicate 16 7 @ [9, 11, 9])),
                         peers := [(''peer'', example_peer\<lparr>inbound := Reader [] None, peer_wg := 0\<rparr>)]\<rparr>)"
    by (simp add: handleMessageStoreFile_def example_server_def example_peer_def
          example_store_def NewStore_def DefaultPathTransformFunc_def FullPath_def
          Store_Write_def writeStream_def openFileForWriting_def path_eval write_eval
          io_Copy_def io_LimitReader_def pending_def
          read_through_def advance_def set_peer_def Peer_CloseStream_def Let_def
          example_disk_at)
  have r: "replicate 16 7 @ [9, 11, 9] = take (nat 19) (pending (inbound example_peer))"
    by (simp add: example_peer_def pending_def)
  from store_file_handler_persists_received_bytes [OF p h r]
  have "Store_Read example_store
        (example_disk([''r'', ''n'', ''k''] \<mapsto> Dir,
                      [''r'', ''n'', ''k'', ''k''] \<mapsto> File (replicate 16 7 @ [9, 11, 9])))
        ''n'' ''k''
       = Inr (19, bytes_Reader (replicate 16 7 @ [9, 11, 9]))"
    by (simp add: example_server_def)
  with p h r show ?thesis
    by blast
qed

subsection \<open>C4: the existence check\<close>

text \<open>
  C4. \<^verbatim>\<open>Has\<close> returns a \<^verbatim>\<open>bool\<close> and no error. What the code returns: \<^verbatim>\<open>Has\<close> is false
  exactly when the \<^verbatim>\<open>os.Stat\<close> of the derived path fails with an error that is
  \<^verbatim>\<open>os.ErrNotExist\<close>; when the stat succeeds, and when it fails in any other way, \<^verbatim>\<open>Has\<close>
  is true. The claim and the comment on \<^verbatim>\<open>Has\<close> want false whenever no file is there.
\<close>

theorem Has_false_only_on_not_exist:
  "Has s fs ident key
     = (os_Stat fs (Root s @ ''/'' @ ident @ ''/'' @ FullPath (PathTransformFunc s key)) \<noteq> Inl ENOENT)"
proof (cases "os_Stat fs (Root s @ ''/'' @ ident @ ''/'' @ FullPath (PathTransformFunc s key))")
  case (Inl e)
  then have "Has s fs ident key = (e \<noteq> ENOENT)"
    by (simp add: Has_def Let_def)
  with Inl show ?thesis
    by simp
next
  case (Inr info)
  then have "Has s fs ident key"
    by (simp add: Has_def Let_def)
  with Inr show ?thesis
    by simp
qed

text \<open>
  Where the code and the claim part: a stat that fails because a regular file is in
  the way (\<open>ENOTDIR\<close>), because the name holds a NUL byte (\<open>EINVAL\<close>) or because a
  name is too long (\<open>ENAMETOOLONG\<close>) makes \<^verbatim>\<open>Has\<close> true. On the example disk key \<open>a\<close> of
  node \<open>n\<close> is stored, so \<open>r/n/a/a\<close> is a regular file; \<^verbatim>\<open>Has\<close> is asked for the key
  \<open>a/a/x\<close>, which was never written, for a key with a NUL byte and for a key of 256
  bytes.
\<close>

theorem Has_true_on_ENOTDIR_counterexample:
  "os_Stat example_disk ''r/n/a/a/x/a/a/x'' = Inl ENOTDIR
   \<and> Has example_store example_disk ''n'' ''a/a/x''
   \<and> os_Stat example_disk [CHR ''r'', CHR ''/'', CHR ''n'', CHR ''/'', CHR 0x00, CHR ''/'', CHR 0x00]
       = Inl EINVAL
   \<and> Has example_store example_disk ''n'' [CHR 0x00]
   \<and> Has example_store example_disk ''n'' (replicate 256 CHR ''k'')"
proof -
  have "Has example_store example_disk ''n'' (replicate 256 CHR ''k'')"
    using long_key_Stat by (simp add: store_eval example_store_def)
  then show ?thesis
    by (simp add: path_eval store_eval example_store_def example_disk_at)
qed

theorem Has_false_only_on_not_exist_witness:
  "Has (NewStore \<lparr>optRoot = ''r'', optPathTransformFunc = None\<rparr>) (\<lambda>l. None) ''n'' ''a'' = False
   \<and> os_Stat (\<lambda>l. None) ''r/n/a/a'' = Inl ENOENT"
  using Has_false_only_on_not_exist
          [of "NewStore \<lparr>optRoot = ''r'', optPathTransformFunc = None\<rparr>" "\<lambda>l. None" "''n''" "''a''"]
  by (simp add: path_eval NewStore_def DefaultPathTransformFunc_def FullPath_def)

subsection \<open>C5: write, has, read, delete\<close>

text \<open>
  C5, as the code has it. For every store, node id and key, and every source of bytes:
  when \<^verbatim>\<open>Write\<close> returns no error, the count it returns is the number of bytes the source
  held, \<^verbatim>\<open>Has\<close> is true, and \<^verbatim>\<open>Read\<close> returns that size and a reader over exactly those
  bytes. After a \<^verbatim>\<open>Delete\<close> of the key that returns no error, in the state the write
  left or in any later one, \<^verbatim>\<open>Has\<close> is false. \<^verbatim>\<open>Delete\<close> does return no error in the
  state the write left when the first path segment of the key is a name, that is,
  neither empty nor \<open>.\<close> nor \<open>..\<close>, as it is for every key under \<^verbatim>\<open>CASPathTransformFunc\<close>.
\<close>

theorem write_has_read_delete_lifecycle:
  assumes "Store_Write s fs ident key r = Some ((n, None), fs1, r')"
    and "pending r = data"
  shows "n = length data
       \<and> Has s fs1 ident key
       \<and> Store_Read s fs1 ident key = Inr (length data, bytes_Reader data)
       \<and> (\<forall>fsx fs2. Delete s fsx ident key = (None, fs2) \<longrightarrow> \<not> Has s fs2 ident key)
       \<and> (plain_name (FirstPathName (PathTransformFunc s key)) \<longrightarrow>
            (\<exists>fs2. Delete s fs1 ident key = (None, fs2)))"
proof -
  let ?q = "Root s @ ''/'' @ ident @ ''/'' @ FullPath (PathTransformFunc s key)"
  have ws: "writeStream s fs ident key r = Some ((n, None), fs1, r')"
    using assms(1) by (simp add: Store_Write_def)
  from writeStream_stores [OF ws writeStream_nil_EOF [OF ws]] assms(2)
  have n: "n = length data" and pc: "path_check ?q = None" and st: "os_Stat fs1 ?q = Inr (File data)"
    by simp_all
  have has: "Has s fs1 ident key"
    using st by (simp add: Has_iff)
  have rd: "Store_Read s fs1 ident key = Inr (length data, bytes_Reader data)"
    using st by (rule Store_Read_File)
  have del: "\<not> Has s fs2 ident key" if "Delete s fsx ident key = (None, fs2)" for fsx fs2
    using Delete_then_not_Has [OF that refl pc] .
  have ok: "\<exists>fs2. Delete s fs1 ident key = (None, fs2)"
    if "plain_name (FirstPathName (PathTransformFunc s key))"
    using Delete_succeeds [OF st that] .
  from n has rd del ok show ?thesis
    by blast
qed

text \<open>
  The claim as the specification states it fails where \<^verbatim>\<open>Delete\<close> returns an error:
  \<^verbatim>\<open>os.RemoveAll\<close> refuses a path that ends in a \<open>.\<close> component. With the store's
  default transform and the key \<open>./b\<close>, \<^verbatim>\<open>Write\<close> stores three bytes under \<open>r/n/b/b\<close>,
  \<^verbatim>\<open>Delete\<close> is asked to remove \<open>r/n/.\<close>, returns \<open>EINVAL\<close> and removes nothing, and \<^verbatim>\<open>Has\<close>
  is true as before.
\<close>

theorem delete_refused_has_stays_true_counterexample:
  "Store_Write example_store (\<lambda>l. None) ''n'' ''./b'' (bytes_Reader [1, 2, 3])
     = Some ((3, None),
             [[''r''] \<mapsto> Dir, [''r'', ''n''] \<mapsto> Dir, [''r'', ''n'', ''b''] \<mapsto> Dir,
              [''r'', ''n'', ''b'', ''b''] \<mapsto> File [1, 2, 3]],
             Reader [] (Some EOF))
   \<and> Delete example_store
        [[''r''] \<mapsto> Dir, [''r'', ''n''] \<mapsto> Dir, [''r'', ''n'', ''b''] \<mapsto> Dir,
         [''r'', ''n'', ''b'', ''b''] \<mapsto> File [1, 2, 3]]
        ''n'' ''./b''
     = (Some EINVAL,
        [[''r''] \<mapsto> Dir, [''r'', ''n''] \<mapsto> Dir, [''r'', ''n'', ''b''] \<mapsto> Dir,
         [''r'', ''n'', ''b'', ''b''] \<mapsto> File [1, 2, 3]])
   \<and> Has example_store
        [[''r''] \<mapsto> Dir, [''r'', ''n''] \<mapsto> Dir, [''r'', ''n'', ''b''] \<mapsto> Dir,
         [''r'', ''n'', ''b'', ''b''] \<mapsto> File [1, 2, 3]]
        ''n'' ''./b''"
  by (simp add: path_eval write_eval remove_eval store_eval example_store_def io_Copy_def
        bytes_Reader_def)

theorem write_has_read_delete_lifecycle_witness:
  "Store_Write example_store (\<lambda>l. None) ''n'' ''a'' (bytes_Reader [1, 2, 3])
     = Some ((3, None),
             [[''r''] \<mapsto> Dir, [''r'', ''n''] \<mapsto> Dir, [''r'', ''n'', ''a''] \<mapsto> Dir,
              [''r'', ''n'', ''a'', ''a''] \<mapsto> File [1, 2, 3]],
             Reader [] (Some EOF))
   \<and> pending (bytes_Reader [1, 2, 3]) = [1, 2, 3]
   \<and> plain_name (FirstPathName (PathTransformFunc example_store ''a''))
   \<and> Has example_store
        [[''r''] \<mapsto> Dir, [''r'', ''n''] \<mapsto> Dir, [''r'', ''n'', ''a''] \<mapsto> Dir,
         [''r'', ''n'', ''a'', ''a''] \<mapsto> File [1, 2, 3]]
        ''n'' ''a''
   \<and> Store_Read example_store
        [[''r''] \<mapsto> Dir, [''r'', ''n''] \<mapsto> Dir, [''r'', ''n'', ''a''] \<mapsto> Dir,
         [''r'', ''n'', ''a'', ''a''] \<mapsto> File [1, 2, 3]]
        ''n'' ''a''
       = Inr (3, bytes_Reader [1, 2, 3])
   \<and> fst (Delete example_store
        [[''r''] \<mapsto> Dir, [''r'', ''n''] \<mapsto> Dir, [''r'', ''n'', ''a''] \<mapsto> Dir,
         [''r'', ''n'', ''a'', ''a''] \<mapsto> File [1, 2, 3]]
        ''n'' ''a'') = None
   \<and> \<not> Has example_store
        (snd (Delete example_store
          [[''r''] \<mapsto> Dir, [''r'', ''n''] \<mapsto> Dir, [''r'', ''n'', ''a''] \<mapsto> Dir,
           [''r'', ''n'', ''a'', ''a''] \<mapsto> File [1, 2, 3]]
          ''n'' ''a''))
        ''n'' ''a''"
proof -
  let ?fs1 = "[[''r''] \<mapsto> Dir, [''r'', ''n''] \<mapsto> Dir, [''r'', ''n'', ''a''] \<mapsto> Dir,
               [''r'', ''n'', ''a'', ''a''] \<mapsto> File [1 :: byte, 2, 3]]"
  have w: "Store_Write example_store (\<lambda>l. None) ''n'' ''a'' (bytes_Reader [1, 2, 3])
             = Some ((3, None), ?fs1, Reader [] (Some EOF))"
    by (simp add: path_eval write_eval store_eval example_store_def io_Copy_def bytes_Reader_def)
  have e: "pending (bytes_Reader [1, 2, 3]) = [1, 2, 3]"
    by (simp add: bytes_Reader_def pending_def)
  have f: "plain_name (FirstPathName (PathTransformFunc example_store ''a''))"
    by (simp add: plain_name_def store_eval example_store_def)
  have d: "fst (Delete example_store ?fs1 ''n'' ''a'') = None"
    by (simp add: path_eval remove_eval store_eval example_store_def)
  from write_has_read_delete_lifecycle [OF w e]
  have "Has example_store ?fs1 ''n'' ''a''"
    and "Store_Read example_store ?fs1 ''n'' ''a'' = Inr (3, bytes_Reader [1, 2, 3])"
    and "\<forall>fsx fs2. Delete example_store fsx ''n'' ''a'' = (None, fs2)
           \<longrightarrow> \<not> Has example_store fs2 ''n'' ''a''"
    by simp_all
  moreover from this(3) d
  have "\<not> Has example_store (snd (Delete example_store ?fs1 ''n'' ''a'')) ''n'' ''a''"
    by (metis prod.collapse)
  ultimately show ?thesis
    using w e f d by simp
qed

subsection \<open>C6: delete removes a whole bucket\<close>




subsection \<open>C7: the default decoder\<close>

text \<open>
  C7. When the byte source still has bytes to deliver, the decoder takes exactly the
  first of them as the tag. If the tag is \<open>IncomingStream\<close> (0x2) it sets \<open>Stream\<close>,
  returns \<^verbatim>\<open>nil\<close> and leaves every later byte in the source. Otherwise one further
  read of at most 1028 bytes becomes the payload: the payload is a non-empty prefix,
  at most 1028 bytes long, of what followed the tag, the rest stays in the source, and
  so a frame longer than 1028 bytes is never delivered whole.
\<close>

theorem decode_tag_then_capped_payload:
  assumes "pending r = b # rest"
  shows "(b = IncomingStream \<longrightarrow>
           (\<exists>r'. DefaultDecoder_Decode r msg = Some (None, msg\<lparr>Stream := True\<rparr>, r')
                \<and> pending r' = rest))
       \<and> (b \<noteq> IncomingStream \<longrightarrow> rest \<noteq> [] \<longrightarrow>
           (\<exists>payload r'. DefaultDecoder_Decode r msg = Some (None, msg\<lparr>Payload := payload\<rparr>, r')
                \<and> payload \<noteq> [] \<and> length payload \<le> 1028
                \<and> payload @ pending r' = rest
                \<and> (\<forall>frame. prefix frame rest \<and> 1028 < length frame \<longrightarrow>
                      strict_prefix payload frame)))"
proof -
  from Read_first_byte [OF assms] obtain r1 where
    r1: "Read 1 r = Some ([b], None, r1)" "pending r1 = rest"
    by blast
  have tag: "fill (replicate 1 0) [b] ! 0 = b"
    by (simp add: fill_def)
  show ?thesis
  proof (intro conjI impI)
    assume "b = IncomingStream"
    then show "\<exists>r'. DefaultDecoder_Decode r msg = Some (None, msg\<lparr>Stream := True\<rparr>, r')
                \<and> pending r' = rest"
      using r1 tag by (simp add: DefaultDecoder_Decode_def)
  next
    assume nb: "b \<noteq> IncomingStream" and ne: "rest \<noteq> []"
    from ne r1 obtain payload r2 where rd: "Read 1028 r1 = Some (payload, None, r2)"
      using Read_some_pending [of r1 1028] by auto
    from Read_pending [OF rd] Read_nonempty [OF rd] r1
    have p: "rest = payload @ pending r2" "length payload \<le> 1028" "payload \<noteq> []"
      by simp_all
    have dec: "DefaultDecoder_Decode r msg = Some (None, msg\<lparr>Payload := payload\<rparr>, r2)"
      using r1 tag nb rd by (simp add: DefaultDecoder_Decode_def)
    have trunc: "strict_prefix payload frame" if "prefix frame rest \<and> 1028 < length frame" for frame
    proof -
      from that obtain zs where zs: "rest = frame @ zs"
        by (auto simp: prefix_def)
      have "payload = take (length payload) rest"
        using p(1) by simp
      also have "\<dots> = take (length payload) frame"
        using zs p(2) that by simp
      finally have "prefix payload frame"
        by (metis take_is_prefix)
      moreover have "payload \<noteq> frame"
        using p(2) that by auto
      ultimately show ?thesis
        by (simp add: strict_prefix_def)
    qed
    show "\<exists>payload r'. DefaultDecoder_Decode r msg = Some (None, msg\<lparr>Payload := payload\<rparr>, r')
                \<and> payload \<noteq> [] \<and> length payload \<le> 1028
                \<and> payload @ pending r' = rest
                \<and> (\<forall>frame. prefix frame rest \<and> 1028 < length frame \<longrightarrow>
                      strict_prefix payload frame)"
      using dec p trunc by blast
  qed
qed

theorem decode_tag_then_capped_payload_witness:
  "pending (Reader [[IncomingStream, 9, 9]] None) = IncomingStream # [9, 9]
   \<and> (\<exists>r'. DefaultDecoder_Decode (Reader [[IncomingStream, 9, 9]] None) RPC_zero
              = Some (None, RPC_zero\<lparr>Stream := True\<rparr>, r') \<and> pending r' = [9, 9])
   \<and> pending (Reader [IncomingMessage # replicate 2000 7] None)
         = IncomingMessage # replicate 2000 7
   \<and> (\<exists>payload r'.
          DefaultDecoder_Decode (Reader [IncomingMessage # replicate 2000 7] None) RPC_zero
              = Some (None, RPC_zero\<lparr>Payload := payload\<rparr>, r')
          \<and> length payload \<le> 1028 \<and> strict_prefix payload (replicate 2000 7))"
proof -
  have s: "pending (Reader [[IncomingStream, 9, 9]] None) = IncomingStream # [9, 9]"
    by (simp add: pending_def)
  have m: "pending (Reader [IncomingMessage # replicate 2000 7] None)
             = IncomingMessage # replicate 2000 7"
    by (simp add: pending_def)
  have ne: "IncomingMessage \<noteq> IncomingStream" "replicate 2000 (7 :: byte) \<noteq> []"
    by (simp_all add: IncomingMessage_def IncomingStream_def)
  from decode_tag_then_capped_payload [OF s, of RPC_zero]
  have a: "\<exists>r'. DefaultDecoder_Decode (Reader [[IncomingStream, 9, 9]] None) RPC_zero
              = Some (None, RPC_zero\<lparr>Stream := True\<rparr>, r') \<and> pending r' = [9, 9]"
    by blast
  from decode_tag_then_capped_payload [OF m, of RPC_zero] ne
  obtain payload r' where
    b: "DefaultDecoder_Decode (Reader [IncomingMessage # replicate 2000 7] None) RPC_zero
          = Some (None, RPC_zero\<lparr>Payload := payload\<rparr>, r')"
       "length payload \<le> 1028"
       "\<forall>frame. prefix frame (replicate 2000 7) \<and> 1028 < length frame
            \<longrightarrow> strict_prefix payload frame"
    by blast
  from b(3) have "strict_prefix payload (replicate 2000 7)"
    by simp
  with s m a b(1,2) show ?thesis
    by blast
qed

subsection \<open>C8: stream units and the inbound queue\<close>

text \<open>
  C8. In every state a connection's read loop can reach, under any scheduling of the
  orchestrator and of stream consumers, no RPC with \<open>Stream\<close> set is on the inbound
  queue or was ever sent to it. When the loop decodes a stream-tagged unit it adds one
  to the gate and waits, with the queue and its history untouched; while the gate is at 1
  the loop cannot move; \<^verbatim>\<open>CloseStream\<close> takes the gate to 0, and then the loop's next
  step is back to decoding, again without enqueueing anything.
\<close>

theorem stream_units_never_queued:
  assumes "reaches addr (handleConn_start handshake onPeer c q) s"
    and "list_all (\<lambda>rpc. \<not> Stream rpc) q"
  shows "list_all (\<lambda>rpc. \<not> Stream rpc) (delivered s)
       \<and> list_all (\<lambda>rpc. \<not> Stream rpc) (rpcch s)
       \<and> (\<forall>rpc c'. phase s = Decoding
              \<and> DefaultDecoder_Decode (conn s) RPC_zero = Some (None, rpc, c') \<and> Stream rpc
            \<longrightarrow> handleConn_step addr s = Some (s\<lparr>phase := Waiting, conn := c', wg := 1\<rparr>))
       \<and> (phase s = Waiting \<and> wg s \<noteq> 0
            \<longrightarrow> handleConn_step addr s = None
              \<and> env_step CloseStream s = Some (s\<lparr>wg := 0\<rparr>))
       \<and> (phase s = Waiting \<and> wg s = 0
            \<longrightarrow> handleConn_step addr s = Some (s\<lparr>phase := Decoding\<rparr>))"
proof -
  let ?s0 = "handleConn_start handshake onPeer c q"
  have q: "no_stream_queued s"
    using reaches_no_stream_queued [OF assms(1)] handleConn_start_no_stream_queued [OF assms(2)]
    by blast
  have g: "gate_inv s"
    using reaches_gate_inv [OF assms(1)] handleConn_start_gate_inv
    by blast
  have a: "list_all (\<lambda>rpc. \<not> Stream rpc) (delivered s)" "list_all (\<lambda>rpc. \<not> Stream rpc) (rpcch s)"
    using q by (simp_all add: no_stream_queued_def)
  have b: "handleConn_step addr s = Some (s\<lparr>phase := Waiting, conn := c', wg := 1\<rparr>)"
    if "phase s = Decoding \<and> DefaultDecoder_Decode (conn s) RPC_zero = Some (None, rpc, c') \<and> Stream rpc"
    for rpc c'
    using that g by (simp add: handleConn_step_def gate_inv_def)
  have w1: "handleConn_step addr s = None \<and> env_step CloseStream s = Some (s\<lparr>wg := 0\<rparr>)"
    if "phase s = Waiting \<and> wg s \<noteq> 0"
    using that g by (auto simp: handleConn_step_def gate_inv_def)
  have w0: "handleConn_step addr s = Some (s\<lparr>phase := Decoding\<rparr>)"
    if "phase s = Waiting \<and> wg s = 0"
    using that by (simp add: handleConn_step_def)
  from a b w1 w0 show ?thesis
    by blast
qed

theorem stream_units_never_queued_witness:
  "reaches ''peer'' (handleConn_start None None (Reader [[IncomingStream, 7]] None) [])
       (handleConn_start None None (Reader [[IncomingStream, 7]] None) [])
   \<and> list_all (\<lambda>rpc. \<not> Stream rpc) []
   \<and> handleConn_step ''peer'' (handleConn_start None None (Reader [[IncomingStream, 7]] None) [])
       = Some \<lparr>phase = Waiting, conn = Reader [[7]] None, wg = 1, rpcch = [], delivered = []\<rparr>"
proof -
  let ?s0 = "handleConn_start None None (Reader [[IncomingStream, 7]] None) []"
  have r: "reaches ''peer'' ?s0 ?s0"
    by (rule reaches.here)
  have e: "list_all (\<lambda>rpc. \<not> Stream rpc) []"
    by simp
  have d: "phase ?s0 = Decoding
         \<and> DefaultDecoder_Decode (conn ?s0) RPC_zero
             = Some (None, RPC_zero\<lparr>Stream := True\<rparr>, Reader [[7]] None)
         \<and> Stream (RPC_zero\<lparr>Stream := True\<rparr>)"
    by (simp add: handleConn_start_def DefaultDecoder_Decode_def fill_def)
  from stream_units_never_queued [OF r e] d
  have "handleConn_step ''peer'' ?s0
          = Some (?s0\<lparr>phase := Waiting, conn := Reader [[7]] None, wg := 1\<rparr>)"
    by blast
  then have "handleConn_step ''peer'' ?s0
          = Some \<lparr>phase = Waiting, conn = Reader [[7]] None, wg = 1, rpcch = [], delivered = []\<rparr>"
    by (simp add: handleConn_start_def)
  with r e show ?thesis
    by blast
qed

subsection \<open>C9: a local hit of Get\<close>

text \<open>
  C9. What \<^verbatim>\<open>Get\<close> does when \<^verbatim>\<open>Has\<close> is true for the key: it returns what the local
  \<^verbatim>\<open>Store.Read\<close> returns and the server is exactly as it was: no peer was sent
  anything, nothing was read from a peer's connection, no gate moved, the peer map and
  the disk are unchanged. When the derived path holds a regular file, what \<^verbatim>\<open>Get\<close>
  returns is a reader over that file's contents, as the claim says. When it holds a
  directory, \<^verbatim>\<open>Get\<close> returns a reader that fails with \<open>EISDIR\<close>; when the stat of the
  path fails, which with \<^verbatim>\<open>Has\<close> true is for another reason than that the path does
  not exist, \<^verbatim>\<open>Get\<close> returns that error.
\<close>

theorem Get_local_hit_is_local_read_only:
  assumes "Has (store s) (disk s) (ID s) key"
  shows "Get L s key
           = Returns ((case Store_Read (store s) (disk s) (ID s) key of
                         Inl e \<Rightarrow> Inl e
                       | Inr (n, r) \<Rightarrow> Inr r), s)
       \<and> (\<forall>d. os_Stat (disk s)
                  (Root (store s) @ ''/'' @ ID s @ ''/'' @ FullPath (PathTransformFunc (store s) key))
                = Inr (File d)
             \<longrightarrow> Get L s key = Returns (Inr (bytes_Reader d), s))
       \<and> (os_Stat (disk s)
             (Root (store s) @ ''/'' @ ID s @ ''/'' @ FullPath (PathTransformFunc (store s) key))
           = Inr Dir
             \<longrightarrow> Get L s key = Returns (Inr (Reader [] (Some EISDIR)), s))
       \<and> (\<forall>e. os_Stat (disk s)
                  (Root (store s) @ ''/'' @ ID s @ ''/'' @ FullPath (PathTransformFunc (store s) key))
                = Inl e
             \<longrightarrow> Get L s key = Returns (Inl e, s))"
proof -
  let ?q = "Root (store s) @ ''/'' @ ID s @ ''/'' @ FullPath (PathTransformFunc (store s) key)"
  have g: "Get L s key
           = Returns ((case Store_Read (store s) (disk s) (ID s) key of
                         Inl e \<Rightarrow> Inl e
                       | Inr (n, r) \<Rightarrow> Inr r), s)"
    using assms by (simp add: Get_def split: sum.splits)
  have isfile: "Get L s key = Returns (Inr (bytes_Reader d), s)" if "os_Stat (disk s) ?q = Inr (File d)" for d
    using Store_Read_File [OF that] g by simp
  have isdir: "Get L s key = Returns (Inr (Reader [] (Some EISDIR)), s)" if "os_Stat (disk s) ?q = Inr Dir"
    using that g
    by (auto simp: Store_Read_def readStream_def os_Open_def os_Stat_def split: sum.splits)
  have err: "Get L s key = Returns (Inl e, s)" if "os_Stat (disk s) ?q = Inl e" for e
    using that g
    by (auto simp: Store_Read_def readStream_def os_Open_def os_Stat_def split: sum.splits)
  from g isfile isdir err show ?thesis
    by blast
qed

text \<open>
  Where the code and the claim part: \<^verbatim>\<open>Has\<close> is true although no file is there (see
  C4). For the key \<open>a/a/x\<close> on the example server the stat fails with \<open>ENOTDIR\<close>, \<^verbatim>\<open>Has\<close>
  is true, and \<^verbatim>\<open>Get\<close> returns the error of the local read and asks no peer. For the empty
  key the derived path is the directory of the node, and \<^verbatim>\<open>Get\<close> returns a reader that
  fails with \<open>EISDIR\<close>.
\<close>

theorem Get_local_hit_without_file_counterexample:
  "Has (store example_server) (disk example_server) (ID example_server) ''a/a/x''
   \<and> Get example_lib example_server ''a/a/x'' = Returns (Inl ENOTDIR, example_server)
   \<and> Has (store example_server) (disk example_server) (ID example_server) []
   \<and> Get example_lib example_server [] = Returns (Inr (Reader [] (Some EISDIR)), example_server)"
  by (simp add: Get_def path_eval store_eval example_server_def example_store_def example_disk_at)

theorem Get_local_hit_is_local_read_only_witness:
  "Has (store example_server) (disk example_server) (ID example_server) ''a''
   \<and> os_Stat (disk example_server)
        (Root (store example_server) @ ''/'' @ ID example_server @ ''/''
           @ FullPath (PathTransformFunc (store example_server) ''a''))
       = Inr (File [1])
   \<and> Get example_lib example_server ''a'' = Returns (Inr (bytes_Reader [1]), example_server)"
proof -
  have h: "Has (store example_server) (disk example_server) (ID example_server) ''a''"
    by (simp add: path_eval store_eval example_server_def example_store_def example_disk_at)
  have f: "os_Stat (disk example_server)
        (Root (store example_server) @ ''/'' @ ID example_server @ ''/''
           @ FullPath (PathTransformFunc (store example_server) ''a''))
       = Inr (File [1])"
    by (simp add: path_eval store_eval example_server_def example_store_def example_disk_at)
  have "Get example_lib example_server ''a'' = Returns (Inr (bytes_Reader [1]), example_server)"
    by (rule Get_local_hit_is_local_read_only
               [OF h, of example_lib, THEN conjunct2, THEN conjunct1, rule_format, OF f])
  with h f show ?thesis
    by (intro conjI)
qed

subsection \<open>C10: a failed read of the tag byte\<close>

text \<open>
  C10. When the first read of a decode (the read of the tag byte) returns an error,
  \<^verbatim>\<open>Decode\<close> returns \<^verbatim>\<open>nil\<close> and the RPC is as it was. In the read loop the RPC is the
  zero value, so the loop does not drop the connection: it sends the empty RPC, stamped
  with the remote address, to the inbound queue and is back at decoding.
\<close>

theorem first_read_error_forwards_empty_rpc:
  assumes "Read 1 r = Some (got, Some e, r1)"
  shows "DefaultDecoder_Decode r msg = Some (None, msg, r1)
       \<and> (phase s = Decoding \<and> conn s = r \<and> length (rpcch s) < rpcch_capacity
            \<longrightarrow> handleConn_step addr s = Some (s\<lparr>phase := Sending (RPC_zero\<lparr>From := addr\<rparr>), conn := r1\<rparr>)
              \<and> handleConn_step addr (s\<lparr>phase := Sending (RPC_zero\<lparr>From := addr\<rparr>), conn := r1\<rparr>)
                  = Some (s\<lparr>phase := Decoding, conn := r1,
                            rpcch := rpcch s @ [\<lparr>From = addr, Payload = [], Stream = False\<rparr>],
                            delivered := delivered s @ [\<lparr>From = addr, Payload = [], Stream = False\<rparr>]\<rparr>))"
proof -
  have d: "DefaultDecoder_Decode r msg = Some (None, msg, r1)" for msg
    using Decode_first_read_error [OF assms] .
  have "handleConn_step addr s = Some (s\<lparr>phase := Sending (RPC_zero\<lparr>From := addr\<rparr>), conn := r1\<rparr>)"
    if "phase s = Decoding \<and> conn s = r"
    using that d [of RPC_zero] by (simp add: handleConn_step_def RPC_zero_def)
  moreover have "handleConn_step addr (s\<lparr>phase := Sending (RPC_zero\<lparr>From := addr\<rparr>), conn := r1\<rparr>)
                  = Some (s\<lparr>phase := Decoding, conn := r1,
                            rpcch := rpcch s @ [\<lparr>From = addr, Payload = [], Stream = False\<rparr>],
                            delivered := delivered s @ [\<lparr>From = addr, Payload = [], Stream = False\<rparr>]\<rparr>)"
    if "length (rpcch s) < rpcch_capacity"
    using that by (simp add: handleConn_step_def RPC_zero_def)
  ultimately show ?thesis
    using d by blast
qed

theorem first_read_error_forwards_empty_rpc_witness:
  "Read 1 (Reader [] (Some EOF)) = Some ([], Some EOF, Reader [] (Some EOF))
   \<and> DefaultDecoder_Decode (Reader [] (Some EOF)) RPC_zero = Some (None, RPC_zero, Reader [] (Some EOF))
   \<and> handleConn_step ''peer'' (handleConn_start None None (Reader [] (Some EOF)) [])
       = Some \<lparr>phase = Sending \<lparr>From = ''peer'', Payload = [], Stream = False\<rparr>,
               conn = Reader [] (Some EOF), wg = 0, rpcch = [], delivered = []\<rparr>
   \<and> handleConn_step ''peer''
         \<lparr>phase = Sending \<lparr>From = ''peer'', Payload = [], Stream = False\<rparr>,
          conn = Reader [] (Some EOF), wg = 0, rpcch = [], delivered = []\<rparr>
       = Some \<lparr>phase = Decoding, conn = Reader [] (Some EOF), wg = 0,
               rpcch = [\<lparr>From = ''peer'', Payload = [], Stream = False\<rparr>],
               delivered = [\<lparr>From = ''peer'', Payload = [], Stream = False\<rparr>]\<rparr>"
proof -
  let ?r = "Reader [] (Some EOF)"
  let ?s0 = "handleConn_start None None ?r []"
  have rd: "Read 1 ?r = Some ([], Some EOF, ?r)"
    by simp
  have s0: "?s0 = \<lparr>phase = Decoding, conn = ?r, wg = 0, rpcch = [], delivered = []\<rparr>"
    by (simp add: handleConn_start_def)
  have pre: "phase ?s0 = Decoding \<and> conn ?s0 = ?r \<and> length (rpcch ?s0) < rpcch_capacity"
    by (simp add: s0 rpcch_capacity_def)
  from first_read_error_forwards_empty_rpc [OF rd, of RPC_zero ?s0 "''peer''"] pre
  have "DefaultDecoder_Decode ?r RPC_zero = Some (None, RPC_zero, ?r)"
    and "handleConn_step ''peer'' ?s0
           = Some (?s0\<lparr>phase := Sending (RPC_zero\<lparr>From := ''peer''\<rparr>), conn := ?r\<rparr>)"
    and "handleConn_step ''peer'' (?s0\<lparr>phase := Sending (RPC_zero\<lparr>From := ''peer''\<rparr>), conn := ?r\<rparr>)
           = Some (?s0\<lparr>phase := Decoding, conn := ?r,
                      rpcch := rpcch ?s0 @ [\<lparr>From = ''peer'', Payload = [], Stream = False\<rparr>],
                      delivered := delivered ?s0 @ [\<lparr>From = ''peer'', Payload = [], Stream = False\<rparr>]\<rparr>)"
    by blast+
  then show ?thesis
    using rd by (simp add: s0 RPC_zero_def)
qed

end
